theory Spec2Isabelle
  imports Main "HOL-Library.Char_ord" "HOL-Library.List_Lexorder" "HOL-Library.Word"
begin

section \<open>Sequencer recovery: data model\<close>

text \<open>
  The development follows \<^verbatim>\<open>packages/pds/src/scripts/sequencer-recovery/recoverer.ts\<close>.
  Identifiers, content hashes, revisions and record addresses are JavaScript strings;
  the comparison \<^verbatim>\<open>root.rev >= evt.rev\<close> is the lexicographic order on strings, which is
  the order of \<^typ>\<open>string\<close> here.
\<close>

type_synonym did = string
type_synonym cid = string
type_synonym rev = string
type_synonym uri = string
type_synonym bytes = "8 word list"
type_synonym block_map = "cid \<rightharpoonup> bytes"

text \<open>Everything a helper can throw; a rejected promise carries one of these.\<close>

datatype error =
    HelperError string
  | RepoNotFound did
  | RepoAlreadyExists did
  | NoRepoRoot did

text \<open>
  Modelled from the spec: a commit event (\<^verbatim>\<open>CommitEvt\<close>, declared in the sequencer package)
  carries the account id, the revision, the \<^verbatim>\<open>since\<close> pointer, the previous and the head
  hash, the operations and the serialized blocks. An operation has an action, a path and,
  unless it is a delete, the content hash of its record.
\<close>

datatype op_action = OpCreate | OpUpdate | OpDelete

record repo_op =
  action :: op_action
  path :: string
  op_cid :: "cid option"

record commit_evt =
  repo :: did
  since :: "rev option"
  evt_rev :: rev
  commit :: cid
  prev :: "cid option"
  ops :: "repo_op list"
  blocks :: bytes

record blob_desc =
  b_cid :: cid
  b_mimeType :: string
  b_size :: nat

text \<open>
  Modelled from the spec: a prepared create or update (declared in the repo package) has
  the record's address and hash, the decoded record and the descriptors
  \<open>{cid, mimeType, size}\<close> of the blobs it references. The type of decoded records is
  left open (\<open>'r\<close>).
\<close>

record 'r prepared =
  p_uri :: uri
  p_cid :: cid
  p_record :: 'r
  p_blobs :: "blob_desc list"

text \<open>
  \<^verbatim>\<open>PreparedWrite\<close> is a union tagged by \<^verbatim>\<open>action\<close>; only the create and update variants
  have a \<^verbatim>\<open>blobs\<close> field.
\<close>

datatype 'r prepared_write =
    Create "'r prepared"
  | Update "'r prepared"
  | Delete uri

record 'r prepare_args =
  a_did :: did
  a_collection :: string
  a_rkey :: string
  a_record :: 'r
  a_validate :: bool

text \<open>
  The helpers \<^verbatim>\<open>parseCommitEvt\<close> imports from other packages (\<^verbatim>\<open>readCar\<close>,
  \<^verbatim>\<open>parseDataKey\<close>, \<^verbatim>\<open>cborToLexRecord\<close>, \<^verbatim>\<open>prepareCreate\<close>, \<^verbatim>\<open>prepareUpdate\<close>,
  \<^verbatim>\<open>prepareDelete\<close>) are parameters: each may throw, none has any effect on the stores.
\<close>

record 'r parse_deps =
  readCar :: "bytes \<Rightarrow> error + block_map"
  parseDataKey :: "string \<Rightarrow> error + (string \<times> string)"
  cborToLexRecord :: "bytes \<Rightarrow> error + 'r"
  prepareCreate :: "'r prepare_args \<Rightarrow> error + 'r prepared"
  prepareUpdate :: "'r prepare_args \<Rightarrow> error + 'r prepared"
  prepareDelete :: "did \<Rightarrow> string \<Rightarrow> string \<Rightarrow> error + uri"

section \<open>parseCommitEvt\<close>

text \<open>The callback of \<^verbatim>\<open>evt.ops.map\<close>: \<open>Inr None\<close> is the \<^verbatim>\<open>undefined\<close> it returns.\<close>

definition parse_op :: "('r, 'm) parse_deps_scheme \<Rightarrow> did \<Rightarrow> block_map \<Rightarrow> repo_op \<Rightarrow> error + 'r prepared_write option" where
  "parse_op d did' car op =
     (case parseDataKey d (path op) of
        Inl e \<Rightarrow> Inl e
      | Inr (collection, rkey) \<Rightarrow>
          if action op = OpDelete then
            (case prepareDelete d did' collection rkey of
               Inl e \<Rightarrow> Inl e
             | Inr u \<Rightarrow> Inr (Some (Delete u)))
          else
            (case op_cid op of
               None \<Rightarrow> Inr None
             | Some c \<Rightarrow>
                 (case car c of
                    None \<Rightarrow> Inr None
                  | Some recordBytes \<Rightarrow>
                      (case cborToLexRecord d recordBytes of
                         Inl e \<Rightarrow> Inl e
                       | Inr record' \<Rightarrow>
                           if action op = OpCreate then
                             (case prepareCreate d
                                     \<lparr>a_did = did', a_collection = collection, a_rkey = rkey,
                                      a_record = record', a_validate = False\<rparr> of
                                Inl e \<Rightarrow> Inl e
                              | Inr p \<Rightarrow> Inr (Some (Create p)))
                           else
                             (case prepareUpdate d
                                     \<lparr>a_did = did', a_collection = collection, a_rkey = rkey,
                                      a_record = record', a_validate = False\<rparr> of
                                Inl e \<Rightarrow> Inl e
                              | Inr p \<Rightarrow> Inr (Some (Update p)))))))"

text \<open>
  \<^verbatim>\<open>Promise.all\<close> over a list of results: all the values in order, or a rejection. When
  several of the promises reject, \<^verbatim>\<open>Promise.all\<close> rejects with the rejection that comes
  first in time; the model takes the first in the order of the list, the order in which
  the callbacks are started.
\<close>

fun promise_all :: "(error + 'a) list \<Rightarrow> error + 'a list" where
  "promise_all [] = Inr []"
| "promise_all (Inl e # rs) = Inl e"
| "promise_all (Inr v # rs) = (case promise_all rs of Inl e \<Rightarrow> Inl e | Inr vs \<Rightarrow> Inr (v # vs))"

text \<open>\<^verbatim>\<open>writesUnfiltered.filter((w) => w !== undefined)\<close>\<close>

fun defined_writes :: "'a option list \<Rightarrow> 'a list" where
  "defined_writes [] = []"
| "defined_writes (None # ws) = defined_writes ws"
| "defined_writes (Some w # ws) = w # defined_writes ws"

definition parseCommitEvt :: "('r, 'm) parse_deps_scheme \<Rightarrow> commit_evt \<Rightarrow> error + ('r prepared_write list \<times> block_map)" where
  "parseCommitEvt d evt =
     (case readCar d (blocks evt) of
        Inl e \<Rightarrow> Inl e
      | Inr car \<Rightarrow>
          (case promise_all (map (parse_op d (repo evt) car) (ops evt)) of
             Inl e \<Rightarrow> Inl e
           | Inr writesUnfiltered \<Rightarrow> Inr (defined_writes writesUnfiltered, car)))"

text \<open>
  A create or update whose record bytes cannot be found: it has no content hash, or the
  hash is not a key of the decoded block bundle.
\<close>

definition unresolvable :: "block_map \<Rightarrow> repo_op \<Rightarrow> bool" where
  "unresolvable car op =
     (action op \<noteq> OpDelete \<and> (case op_cid op of None \<Rightarrow> True | Some c \<Rightarrow> car c = None))"

section \<open>The stores of the recovery context\<close>

text \<open>
  Modelled from the spec: the per-account repository, whose declarations are in the
  actor-store package. It holds the signing identity it was created with, the stored head
  and revision (\<open>None\<close> until a first commit is applied), the block storage, the index of
  current records, and the two blob tables: association rows (blob hash, record address)
  and metadata rows \<open>{hash, mimeType, size, createdAt}\<close>. A table is the list of its rows,
  so that a duplicated row would be visible.
\<close>

record blob_row =
  r_cid :: cid
  r_mimeType :: string
  r_size :: nat
  r_createdAt :: string

record actor_store =
  signing_key :: nat
  root :: "(cid \<times> rev) option"
  repo_block :: block_map
  record_index :: "uri \<rightharpoonup> (cid \<times> rev)"
  record_blob :: "(cid \<times> uri) list"
  blob :: "blob_row list"

record commit_data =
  c_cid :: cid
  c_rev :: rev
  c_since :: "rev option"
  c_prev :: "cid option"
  newBlocks :: block_map
  relevantBlocks :: block_map
  removedCids :: "cid set"

text \<open>
  The recovery context: the repositories that exist on disk (\<^verbatim>\<open>actorStore\<close>), the
  account-management records (\<^verbatim>\<open>accountManager\<close>) and the number of signing identities
  generated so far; the next identity generated is that number, so each one is fresh.
\<close>

record world =
  actors :: "did \<rightharpoonup> actor_store"
  accounts :: "did set"
  keys_made :: nat

text \<open>
  The helpers of the transaction that the spec leaves open are parameters too:
  \<^verbatim>\<open>formatCommit\<close> reads the repository and builds a commit record or throws;
  \<^verbatim>\<open>processWriteBlobs\<close> is the blob bookkeeping of a first commit, on the two blob tables.
\<close>

record 'r deps = "'r parse_deps" +
  formatCommit :: "actor_store \<Rightarrow> 'r prepared_write list \<Rightarrow> error + commit_data"
  processWriteBlobs :: "rev \<Rightarrow> 'r prepared_write list \<Rightarrow>
      (cid \<times> uri) list \<times> blob_row list \<Rightarrow> error + (cid \<times> uri) list \<times> blob_row list"

text \<open>
  Modelled from the spec: \<^verbatim>\<open>actorStore.exists\<close>, \<^verbatim>\<open>actorStore.create\<close> and
  \<^verbatim>\<open>actorStore.transact\<close> (``atomic access''): a repository is created empty with its
  signing identity; a transaction runs on an existing repository and either commits the
  callback's result or, when the callback throws, leaves the repository as it was.
\<close>

definition actor_exists :: "world \<Rightarrow> did \<Rightarrow> bool" where
  "actor_exists w did' = (actors w did' \<noteq> None)"

definition empty_store :: "nat \<Rightarrow> actor_store" where
  "empty_store keypair =
     \<lparr>signing_key = keypair, root = None, repo_block = Map.empty, record_index = Map.empty,
      record_blob = [], blob = []\<rparr>"

definition actor_create :: "did \<Rightarrow> nat \<Rightarrow> world \<Rightarrow> error + world" where
  "actor_create did' keypair w =
     (if actor_exists w did' then Inl (RepoAlreadyExists did')
      else Inr (w\<lparr>actors := (actors w)(did' \<mapsto> empty_store keypair)\<rparr>))"

definition transact :: "world \<Rightarrow> did \<Rightarrow> (actor_store \<Rightarrow> error + actor_store) \<Rightarrow> error option \<times> world" where
  "transact w did' fn =
     (case actors w did' of
        None \<Rightarrow> (Some (RepoNotFound did'), w)
      | Some st \<Rightarrow>
          (case fn st of
             Inl e \<Rightarrow> (Some e, w)
           | Inr st' \<Rightarrow> (None, w\<lparr>actors := (actors w)(did' \<mapsto> st')\<rparr>)))"

text \<open>
  Modelled from the spec: \<^verbatim>\<open>storage.applyCommit\<close> (``apply it to the repository's block
  storage'': the head and revision of the commit become the stored ones, removed hashes
  leave the block storage and the new blocks enter it) and \<^verbatim>\<open>repo.indexWrites\<close> (``update
  the record index from the prepared writes'').
\<close>

definition applyCommit :: "commit_data \<Rightarrow> bool \<Rightarrow> actor_store \<Rightarrow> actor_store" where
  "applyCommit c isCreate st =
     st\<lparr>root := Some (c_cid c, c_rev c),
        repo_block := (repo_block st |` (- removedCids c)) ++ newBlocks c\<rparr>"

fun index_write :: "rev \<Rightarrow> 'r prepared_write \<Rightarrow> actor_store \<Rightarrow> actor_store" where
  "index_write r (Create p) st = st\<lparr>record_index := (record_index st)(p_uri p \<mapsto> (p_cid p, r))\<rparr>"
| "index_write r (Update p) st = st\<lparr>record_index := (record_index st)(p_uri p \<mapsto> (p_cid p, r))\<rparr>"
| "index_write r (Delete u) st = st\<lparr>record_index := (record_index st)(u := None)\<rparr>"

definition indexWrites :: "'r prepared_write list \<Rightarrow> rev \<Rightarrow> actor_store \<Rightarrow> actor_store" where
  "indexWrites writes r st = fold (index_write r) writes st"

section \<open>trackBlobs\<close>

text \<open>
  Modelled from the spec: \<^verbatim>\<open>blob.deleteDereferencedBlobs\<close> (``unreference blobs that are no
  longer pointed to by any surviving record''): the association rows of the records that
  the writes delete or update are removed, and a metadata row goes when its blob has lost
  an association row, keeps none and is not referenced by the new writes.
\<close>

fun replaced_uris :: "'r prepared_write list \<Rightarrow> uri list" where
  "replaced_uris [] = []"
| "replaced_uris (Create p # ws) = replaced_uris ws"
| "replaced_uris (Update p # ws) = p_uri p # replaced_uris ws"
| "replaced_uris (Delete u # ws) = u # replaced_uris ws"

fun new_blob_cids :: "'r prepared_write list \<Rightarrow> cid list" where
  "new_blob_cids [] = []"
| "new_blob_cids (Create p # ws) = map b_cid (p_blobs p) @ new_blob_cids ws"
| "new_blob_cids (Update p # ws) = map b_cid (p_blobs p) @ new_blob_cids ws"
| "new_blob_cids (Delete u # ws) = new_blob_cids ws"

definition deleteDereferencedBlobs :: "'r prepared_write list \<Rightarrow> bool \<Rightarrow> actor_store \<Rightarrow> actor_store" where
  "deleteDereferencedBlobs writes skipBlobStore st =
     (let uris = replaced_uris writes;
          deleted = filter (\<lambda>row. snd row \<in> set uris) (record_blob st);
          kept = filter (\<lambda>row. snd row \<notin> set uris) (record_blob st);
          cidsToKeep = new_blob_cids writes @ map fst kept;
          cidsToDelete = filter (\<lambda>c. c \<notin> set cidsToKeep) (map fst deleted)
      in st\<lparr>record_blob := kept,
            blob := filter (\<lambda>row. r_cid row \<notin> set cidsToDelete) (blob st)\<rparr>)"

text \<open>
  Modelled from the spec: an insert with \<^verbatim>\<open>onConflict((oc) => oc.doNothing())\<close>, the conflict
  target being the table's natural key: the whole row for an association, the hash for a
  metadata row.
\<close>

definition insert_record_blob :: "cid \<times> uri \<Rightarrow> (cid \<times> uri) list \<Rightarrow> (cid \<times> uri) list" where
  "insert_record_blob row tbl = (if row \<in> set tbl then tbl else tbl @ [row])"

definition insert_blob :: "blob_row \<Rightarrow> blob_row list \<Rightarrow> blob_row list" where
  "insert_blob row tbl = (if r_cid row \<in> set (map r_cid tbl) then tbl else tbl @ [row])"

text \<open>The body of the inner loop of \<^verbatim>\<open>trackBlobs\<close>, for one blob of one write.\<close>

definition upsert_blob :: "string \<Rightarrow> uri \<Rightarrow> blob_desc \<Rightarrow> actor_store \<Rightarrow> actor_store" where
  "upsert_blob now recordUri b st =
     st\<lparr>record_blob := insert_record_blob (b_cid b, recordUri) (record_blob st),
        blob := insert_blob \<lparr>r_cid = b_cid b, r_mimeType = b_mimeType b, r_size = b_size b,
                             r_createdAt = now\<rparr> (blob st)\<rparr>"

fun track_write :: "string \<Rightarrow> 'r prepared_write \<Rightarrow> actor_store \<Rightarrow> actor_store" where
  "track_write now (Create p) st = fold (upsert_blob now (p_uri p)) (p_blobs p) st"
| "track_write now (Update p) st = fold (upsert_blob now (p_uri p)) (p_blobs p) st"
| "track_write now (Delete u) st = st"

definition upsert_writes :: "string \<Rightarrow> 'r prepared_write list \<Rightarrow> actor_store \<Rightarrow> actor_store" where
  "upsert_writes now writes st = fold (track_write now) writes st"

text \<open>\<open>now\<close> is \<^verbatim>\<open>store.repo.now\<close>, the timestamp of the transaction.\<close>

definition trackBlobs :: "string \<Rightarrow> 'r prepared_write list \<Rightarrow> actor_store \<Rightarrow> actor_store" where
  "trackBlobs now writes st = upsert_writes now writes (deleteDereferencedBlobs writes True st)"

text \<open>
  The blobs a list of writes refers to, each with the address of its record, in the order
  in which the two loops of \<^verbatim>\<open>trackBlobs\<close> visit them; and the upserts for such a list.
\<close>

fun write_blob_refs :: "'r prepared_write list \<Rightarrow> (uri \<times> blob_desc) list" where
  "write_blob_refs [] = []"
| "write_blob_refs (Create p # ws) = map (Pair (p_uri p)) (p_blobs p) @ write_blob_refs ws"
| "write_blob_refs (Update p # ws) = map (Pair (p_uri p)) (p_blobs p) @ write_blob_refs ws"
| "write_blob_refs (Delete u # ws) = write_blob_refs ws"

definition upsert_refs :: "string \<Rightarrow> (uri \<times> blob_desc) list \<Rightarrow> actor_store \<Rightarrow> actor_store" where
  "upsert_refs now refs st = fold (\<lambda>ref. upsert_blob now (fst ref) (snd ref)) refs st"

section \<open>processCommit and processRepoCreation\<close>

text \<open>
  The callback of \<^verbatim>\<open>actorStore.transact\<close> in \<^verbatim>\<open>processCommit\<close>.

  Modelled from the spec: \<^verbatim>\<open>storage.getRootDetailed\<close> reads the stored head and revision;
  on a repository that has none it throws.

  The three operations under \<^verbatim>\<open>Promise.all\<close> write to different tables. Their effects are
  composed in call order here; \<open>commit_effects_commute\<close> below shows that any other order
  gives the same repository. The order of the calls themselves is the subject of the next
  section. \<^verbatim>\<open>applyCommit(commit)\<close> is called without its second argument.
\<close>

definition commit_txn ::
  "('r, 'm) deps_scheme \<Rightarrow> string \<Rightarrow> commit_evt \<Rightarrow> 'r prepared_write list \<Rightarrow> block_map \<Rightarrow> actor_store \<Rightarrow> error + actor_store" where
  "commit_txn d now evt writes car st =
     (case root st of
        None \<Rightarrow> Inl (NoRepoRoot (repo evt))
      | Some (root_cid, root_rev) \<Rightarrow>
          if root_rev \<ge> evt_rev evt then Inr st
          else
            (case formatCommit d st writes of
               Inl e \<Rightarrow> Inl e
             | Inr formatted \<Rightarrow>
                 (let commit' = formatted\<lparr>newBlocks := car, c_cid := commit evt, c_rev := evt_rev evt\<rparr>
                  in Inr (trackBlobs now writes
                            (indexWrites writes (c_rev commit')
                               (applyCommit commit' False st))))))"

definition genesis_txn ::
  "('r, 'm) deps_scheme \<Rightarrow> commit_data \<Rightarrow> 'r prepared_write list \<Rightarrow> actor_store \<Rightarrow> error + actor_store" where
  "genesis_txn d commit' writes st =
     (let st' = indexWrites writes (c_rev commit') (applyCommit commit' True st)
      in case processWriteBlobs d (c_rev commit') writes (record_blob st', blob st') of
           Inl e \<Rightarrow> Inl e
         | Inr (record_blob', blob') \<Rightarrow> Inr (st'\<lparr>record_blob := record_blob', blob := blob'\<rparr>))"

definition processRepoCreation ::
  "('r, 'm) deps_scheme \<Rightarrow> commit_evt \<Rightarrow> 'r prepared_write list \<Rightarrow> block_map \<Rightarrow> world \<Rightarrow> error option \<times> world" where
  "processRepoCreation d evt writes car w =
     (let did' = repo evt;
          keypair = keys_made w;
          w1 = w\<lparr>keys_made := Suc (keys_made w)\<rparr>
      in case actor_create did' keypair w1 of
           Inl e \<Rightarrow> (Some e, w1)
         | Inr w2 \<Rightarrow>
             transact w2 did'
               (genesis_txn d
                  \<lparr>c_cid = commit evt, c_rev = evt_rev evt, c_since = since evt, c_prev = prev evt,
                   newBlocks = car, relevantBlocks = Map.empty, removedCids = {}\<rparr>
                  writes))"

text \<open>
  The task \<^verbatim>\<open>processCommit\<close> hands to the queue. Its result is the error it throws, if
  any, and the stores as it leaves them. The repository is looked for only when
  \<^verbatim>\<open>evt.since\<close> is \<^verbatim>\<open>null\<close>, and the creation path returns early; every other event
  falls through to the transaction.
\<close>

definition commit_task :: "('r, 'm) deps_scheme \<Rightarrow> string \<Rightarrow> commit_evt \<Rightarrow> world \<Rightarrow> error option \<times> world" where
  "commit_task d now evt w =
     (let did' = repo evt
      in case parseCommitEvt d evt of
           Inl e \<Rightarrow> (Some e, w)
         | Inr (writes, car) \<Rightarrow>
             if since evt = None \<and> \<not> actor_exists w did'
             then processRepoCreation d evt writes car w
             else transact w did' (commit_txn d now evt writes car))"

section \<open>The order of the store calls in a commit transaction\<close>

text \<open>
  The state model gives the result of a transaction. The order in which the store
  operations are called and settle is modelled on its own, as a list of events. The
  operations of the non-genesis path that write: \<^verbatim>\<open>applyCommit\<close>, \<^verbatim>\<open>indexWrites\<close>,
  \<^verbatim>\<open>deleteDereferencedBlobs\<close> and the two inserts of \<^verbatim>\<open>trackBlobs\<close>.
\<close>

datatype store_call =
    CallApplyCommit
  | CallIndexWrites
  | CallDeleteDereferenced
  | CallInsertRecordBlob cid uri
  | CallInsertBlob cid

datatype call_event = Called store_call | Fulfilled store_call | Rejected store_call

text \<open>
  An asynchronous computation is the list of its segments: what it runs between two
  suspension points. A call runs the first segment at once; the event loop resumes the
  computation later, one segment at a time.
\<close>

type_synonym thread = "call_event list list"

text \<open>
  A call settles: it is fulfilled or it rejects. Which operations reject (\<open>rej\<close>) is a
  parameter.
\<close>

definition settled :: "(store_call \<Rightarrow> bool) \<Rightarrow> store_call \<Rightarrow> call_event" where
  "settled rej c = (if rej c then Rejected c else Fulfilled c)"

text \<open>
  Modelled from the spec: a store operation is asynchronous. It is called, suspends \<open>n\<close>
  times and settles; with \<open>n = 0\<close> it settles within the call.
\<close>

definition async_call :: "nat \<Rightarrow> (store_call \<Rightarrow> bool) \<Rightarrow> store_call \<Rightarrow> thread" where
  "async_call n rej c =
     (if n = 0 then [[Called c, settled rej c]]
      else [Called c] # replicate (n - 1) [] @ [[settled rej c]])"

text \<open>
  The inserts of the loops of \<^verbatim>\<open>trackBlobs\<close>, in order: two for each blob of each create
  or update, none for a delete.
\<close>

fun track_calls :: "'r prepared_write list \<Rightarrow> store_call list" where
  "track_calls [] = []"
| "track_calls (Create p # ws) =
     concat (map (\<lambda>b. [CallInsertRecordBlob (b_cid b) (p_uri p), CallInsertBlob (b_cid b)]) (p_blobs p))
     @ track_calls ws"
| "track_calls (Update p # ws) =
     concat (map (\<lambda>b. [CallInsertRecordBlob (b_cid b) (p_uri p), CallInsertBlob (b_cid b)]) (p_blobs p))
     @ track_calls ws"
| "track_calls (Delete u # ws) = track_calls ws"

text \<open>
  A function that awaits one call after the other makes them in order, up to and including
  the first that rejects: there the \<^verbatim>\<open>await\<close> throws and the function is left.
\<close>

fun awaited :: "(store_call \<Rightarrow> bool) \<Rightarrow> store_call list \<Rightarrow> store_call list" where
  "awaited rej [] = []"
| "awaited rej (c # cs) = (if rej c then [c] else c # awaited rej cs)"

text \<open>
  \<^verbatim>\<open>trackBlobs\<close> awaits \<^verbatim>\<open>deleteDereferencedBlobs\<close> and then each insert in turn: its first
  segment is the call of \<^verbatim>\<open>deleteDereferencedBlobs\<close>, and every later call is made in
  the segment that follows the settlement of the call before it.
\<close>

definition trackBlobs_thread ::
  "(store_call \<Rightarrow> nat) \<Rightarrow> (store_call \<Rightarrow> bool) \<Rightarrow> 'r prepared_write list \<Rightarrow> thread" where
  "trackBlobs_thread susp rej writes =
     concat (map (\<lambda>c. async_call (susp c) rej c)
               (awaited rej (CallDeleteDereferenced # track_calls writes)))"

text \<open>
  The event loop resumes suspended computations in the order of a schedule (the indices of
  the computations to resume; an index without a suspended computation is skipped). When
  the schedule is used up, what remains runs to the end, so that every run completes.
\<close>

fun run_schedule :: "nat list \<Rightarrow> thread list \<Rightarrow> call_event list" where
  "run_schedule [] ts = concat (map concat ts)"
| "run_schedule (i # sched) ts =
     (if i < length ts then
        (case ts ! i of
           [] \<Rightarrow> run_schedule sched ts
         | seg # rest \<Rightarrow> seg @ run_schedule sched (ts[i := rest]))
      else run_schedule sched ts)"

text \<open>
  \<^verbatim>\<open>Promise.all([f(), g(), h()])\<close>: the array is built first, so each call runs its first
  segment, in order; then the computations are resumed as the schedule says. A rejection
  stops none of the other computations: each runs to its end.
\<close>

definition first_segment :: "thread \<Rightarrow> call_event list" where
  "first_segment t = (case t of [] \<Rightarrow> [] | seg # rest \<Rightarrow> seg)"

definition call_all :: "nat list \<Rightarrow> thread list \<Rightarrow> call_event list" where
  "call_all sched ts = concat (map first_segment ts) @ run_schedule sched (map tl ts)"

text \<open>
  The \<^verbatim>\<open>Promise.all\<close> of \<^verbatim>\<open>processCommit\<close>: \<^verbatim>\<open>applyCommit(commit)\<close>,
  \<^verbatim>\<open>indexWrites(writes, commit.rev)\<close> and \<^verbatim>\<open>this.trackBlobs(actorTxn, writes)\<close>. How often
  each store operation suspends (\<open>susp\<close>), which of them reject (\<open>rej\<close>) and the schedule of
  the event loop are parameters.
\<close>

definition commit_calls ::
  "(store_call \<Rightarrow> nat) \<Rightarrow> (store_call \<Rightarrow> bool) \<Rightarrow> nat list \<Rightarrow> 'r prepared_write list
     \<Rightarrow> call_event list" where
  "commit_calls susp rej sched writes =
     call_all sched
       [async_call (susp CallApplyCommit) rej CallApplyCommit,
        async_call (susp CallIndexWrites) rej CallIndexWrites,
        trackBlobs_thread susp rej writes]"

text \<open>
  Some occurrence of \<open>a\<close> is followed by an occurrence of \<open>b\<close>.
\<close>

fun occurs_before :: "'a \<Rightarrow> 'a \<Rightarrow> 'a list \<Rightarrow> bool" where
  "occurs_before a b [] = False"
| "occurs_before a b (x # xs) = ((x = a \<and> b \<in> set xs) \<or> occurs_before a b xs)"

fun call_of :: "call_event \<Rightarrow> store_call" where
  "call_of (Called c) = c"
| "call_of (Fulfilled c) = c"
| "call_of (Rejected c) = c"

text \<open>
  The events of blob reference reconciliation: those of \<^verbatim>\<open>trackBlobs\<close>.
\<close>

definition reconciles :: "call_event \<Rightarrow> bool" where
  "reconciles e = (call_of e \<noteq> CallApplyCommit \<and> call_of e \<noteq> CallIndexWrites)"

section \<open>The orchestrator\<close>

text \<open>
  Modelled from the spec: an account event carries the account id and a status, one of which
  is \<open>deleted\<close>; a sequenced event has a sequence number and is a commit event, an account
  event or an event of another type.
\<close>

datatype account_status = Deleted | OtherStatus string

record account_evt =
  acct_did :: did
  status :: account_status

datatype typed_evt = CommitEvt commit_evt | AccountEvt account_evt | OtherEvt string

record seq_evt =
  seq :: int
  typed :: typed_evt

text \<open>The two closures handed to the queue, as data.\<close>

datatype task = CommitTask commit_evt | AccountDeleteTask did

text \<open>
  Modelled from the spec: the per-key queue (\<^verbatim>\<open>UserQueues\<close>, in \<^verbatim>\<open>./user-queues\<close>).
  \<^verbatim>\<open>addToUser\<close> appends the task to the FIFO and never blocks; the tasks run later, in
  enqueue order, which respects the order within each key. The queue counts the tasks it
  has started and keeps the errors they threw, with their keys.
\<close>

record user_queues =
  concurrency :: nat
  pending :: "(did \<times> task) list"
  started :: nat
  failed :: "(did \<times> error) list"

definition new_UserQueues :: "nat \<Rightarrow> user_queues" where
  "new_UserQueues n = \<lparr>concurrency = n, pending = [], started = 0, failed = []\<rparr>"

definition addToUser :: "did \<Rightarrow> task \<Rightarrow> user_queues \<Rightarrow> user_queues" where
  "addToUser did' t q = q\<lparr>pending := pending q @ [(did', t)]\<rparr>"

record recoverer =
  ctx :: world
  cursor :: int
  queues :: user_queues

definition new_Recoverer :: "world \<Rightarrow> int \<Rightarrow> nat \<Rightarrow> recoverer" where
  "new_Recoverer c opts_cursor opts_concurrency =
     \<lparr>ctx = c, cursor = opts_cursor, queues = new_UserQueues opts_concurrency\<rparr>"

text \<open>
  The event source, the clock that stamps each transaction and the low-water mark of the
  queue are parameters.
\<close>

record 'r run_deps = "'r deps" +
  requestSeqRange :: "int \<Rightarrow> nat \<Rightarrow> seq_evt list"
  clock :: "nat \<Rightarrow> string"
  low_water :: nat

definition processCommit :: "commit_evt \<Rightarrow> recoverer \<Rightarrow> recoverer" where
  "processCommit evt r = r\<lparr>queues := addToUser (repo evt) (CommitTask evt) (queues r)\<rparr>"

definition processAccountEvt :: "account_evt \<Rightarrow> recoverer \<Rightarrow> recoverer" where
  "processAccountEvt evt r =
     (if status evt \<noteq> Deleted then r
      else r\<lparr>queues := addToUser (acct_did evt) (AccountDeleteTask (acct_did evt)) (queues r)\<rparr>)"

fun processEvent :: "seq_evt \<Rightarrow> recoverer \<Rightarrow> recoverer" where
  "processEvent evt r =
     (case typed evt of
        AccountEvt a \<Rightarrow> processAccountEvt a r
      | CommitEvt c \<Rightarrow> processCommit c r
      | OtherEvt t \<Rightarrow> r)"

text \<open>
  Modelled from the spec: \<^verbatim>\<open>rmIfExists(directory, true)\<close> removes the account's storage
  location and succeeds when it is already absent; \<^verbatim>\<open>accountManager.deleteAccount\<close>
  removes the account-management record.
\<close>

definition rmIfExists :: "did \<Rightarrow> world \<Rightarrow> world" where
  "rmIfExists directory w = w\<lparr>actors := (actors w)(directory := None)\<rparr>"

definition deleteAccount :: "did \<Rightarrow> world \<Rightarrow> world" where
  "deleteAccount did' w = w\<lparr>accounts := accounts w - {did'}\<rparr>"

text \<open>The task of \<^verbatim>\<open>processAccountEvt\<close>; the storage location of an account is keyed by its id.\<close>

definition account_delete_task :: "did \<Rightarrow> world \<Rightarrow> error option \<times> world" where
  "account_delete_task did' w = (None, deleteAccount did' (rmIfExists did' w))"

fun run_task :: "('r, 'm) deps_scheme \<Rightarrow> string \<Rightarrow> task \<Rightarrow> world \<Rightarrow> error option \<times> world" where
  "run_task d now (CommitTask evt) w = commit_task d now evt w"
| "run_task d now (AccountDeleteTask did') w = account_delete_task did' w"

text \<open>The queue runs its oldest task; an error is kept with the task's key.\<close>

definition run_next :: "('r, 'm) run_deps_scheme \<Rightarrow> recoverer \<Rightarrow> recoverer" where
  "run_next d r =
     (case pending (queues r) of
        [] \<Rightarrow> r
      | (key, t) # rest \<Rightarrow>
          (case run_task d (clock d (started (queues r))) t (ctx r) of
             (err, w') \<Rightarrow>
               r\<lparr>ctx := w',
                 queues := (queues r)
                   \<lparr>pending := rest,
                    started := Suc (started (queues r)),
                    failed := failed (queues r) @ (case err of None \<Rightarrow> [] | Some e \<Rightarrow> [(key, e)])\<rparr>\<rparr>))"

text \<open>
  Modelled from the spec: \<^verbatim>\<open>onEmpty\<close> returns once the loaded tasks have dropped to the
  low-water mark.
\<close>

definition onEmpty :: "('r, 'm) run_deps_scheme \<Rightarrow> recoverer \<Rightarrow> recoverer" where
  "onEmpty d r = (run_next d ^^ (length (pending (queues r)) - low_water d)) r"

text \<open>
  Modelled from the spec: \<^verbatim>\<open>processAll\<close> returns once every task has completed, and then
  propagates the first error that a task has thrown, with the key of the task.
\<close>

definition processAll ::
  "('r, 'm) run_deps_scheme \<Rightarrow> recoverer \<Rightarrow> (did \<times> error) option \<times> recoverer" where
  "processAll d r =
     (let r' = (run_next d ^^ length (pending (queues r))) r
      in (case failed (queues r') of [] \<Rightarrow> None | f # fs \<Rightarrow> Some f, r'))"

text \<open>\<^verbatim>\<open>loadNextPage\<close> returns \<^verbatim>\<open>true\<close> when the page is empty.\<close>

definition dispatch_page :: "seq_evt list \<Rightarrow> recoverer \<Rightarrow> recoverer" where
  "dispatch_page page r = fold processEvent page r"

definition loadNextPage :: "('r, 'm) run_deps_scheme \<Rightarrow> recoverer \<Rightarrow> bool \<times> recoverer" where
  "loadNextPage d r =
     (let page = requestSeqRange d (cursor r) 5000;
          r1 = dispatch_page page r
      in case page of
           [] \<Rightarrow> (True, r1)
         | _ # _ \<Rightarrow> (False, r1\<lparr>cursor := seq (last page)\<rparr>))"

text \<open>The loop of \<^verbatim>\<open>run\<close> may go on forever; \<open>None\<close> is a run that never returns.\<close>

partial_function (option) run_loop :: "('r, 'm) run_deps_scheme \<Rightarrow> recoverer \<Rightarrow> recoverer option" where
  "run_loop d r =
     (case loadNextPage d r of
        (done', r1) \<Rightarrow>
          (let r2 = onEmpty d r1 in if done' then Some r2 else run_loop d r2))"

text \<open>
  \<^verbatim>\<open>run\<close>: the loop, then \<^verbatim>\<open>await this.queues.processAll()\<close>, whose error is the error of
  the run.
\<close>

definition run ::
  "('r, 'm) run_deps_scheme \<Rightarrow> recoverer \<Rightarrow> ((did \<times> error) option \<times> recoverer) option" where
  "run d r = map_option (processAll d) (run_loop d r)"

text \<open>
  What \<^verbatim>\<open>processEvent\<close> is expected to hand to the queue for one event: a commit task
  for a commit event, a deletion task for an account event with status \<open>deleted\<close>,
  nothing otherwise.
\<close>

fun dispatched_tasks :: "seq_evt \<Rightarrow> (did \<times> task) list" where
  "dispatched_tasks evt =
     (case typed evt of
        CommitEvt c \<Rightarrow> [(repo c, CommitTask c)]
      | AccountEvt a \<Rightarrow> (if status a = Deleted then [(acct_did a, AccountDeleteTask (acct_did a))] else [])
      | OtherEvt t \<Rightarrow> [])"

text \<open>
  What a run is expected to fetch: the pages from a cursor on, each fetched at the sequence
  number of the last event of the page before, up to the first empty page. \<open>fetched d c evts c'\<close>:
  from the cursor \<open>c\<close> the events \<open>evts\<close> are fetched, and the page at \<open>c'\<close> is the empty one.
\<close>

inductive fetched :: "('r, 'm) run_deps_scheme \<Rightarrow> int \<Rightarrow> seq_evt list \<Rightarrow> int \<Rightarrow> bool" where
  end_of_log: "requestSeqRange d c 5000 = [] \<Longrightarrow> fetched d c [] c"
| next_page: "requestSeqRange d c 5000 = page \<Longrightarrow> page \<noteq> [] \<Longrightarrow>
     fetched d (seq (last page)) evts c' \<Longrightarrow> fetched d c (page @ evts) c'"

code_pred fetched .

text \<open>
  What the queue is expected to have done when every task has completed: each task has
  run, in the order of the queue, on the stores as the task before it left them, the
  \<open>n\<close>-th started task with the \<open>n\<close>-th reading of the clock. The result is the errors
  thrown, with their keys, and the stores at the end.
\<close>

fun exec_tasks ::
  "('r, 'm) run_deps_scheme \<Rightarrow> nat \<Rightarrow> (did \<times> task) list \<Rightarrow> world \<Rightarrow> (did \<times> error) list \<times> world" where
  "exec_tasks d n [] w = ([], w)"
| "exec_tasks d n ((key, t) # ts) w =
     (case run_task d (clock d n) t w of
        (err, w') \<Rightarrow>
          (case exec_tasks d (Suc n) ts w' of
             (es, w'') \<Rightarrow> ((case err of None \<Rightarrow> [] | Some e \<Rightarrow> [(key, e)]) @ es, w'')))"

text \<open>
  What a run is expected to return when it has fetched the events \<open>evts\<close> and ended at the
  cursor \<open>c'\<close>: every task that was in the queue and every task of the events has
  completed, no task is left, and the error of the run is the first error thrown.
\<close>

definition flushed ::
  "('r, 'm) run_deps_scheme \<Rightarrow> recoverer \<Rightarrow> seq_evt list \<Rightarrow> int
     \<Rightarrow> (did \<times> error) option \<times> recoverer" where
  "flushed d r evts c' =
     (let tasks = pending (queues r) @ concat (map dispatched_tasks evts)
      in case exec_tasks d (started (queues r)) tasks (ctx r) of
           (es, w') \<Rightarrow>
             (case failed (queues r) @ es of [] \<Rightarrow> None | f # fs \<Rightarrow> Some f,
              r\<lparr>ctx := w', cursor := c',
                queues := (queues r)
                  \<lparr>pending := [],
                   started := started (queues r) + length tasks,
                   failed := failed (queues r) @ es\<rparr>\<rparr>))"

section \<open>Sample helpers and events\<close>

text \<open>
  An instance of the parameters, on which the model is evaluated below. Decoded records
  are byte strings here.

  Modelled from the spec: \<^verbatim>\<open>parseDataKey\<close> resolves a path \<open>collection/rkey\<close> into its two
  parts and throws on any other path; \<^verbatim>\<open>prepareCreate\<close> and \<^verbatim>\<open>prepareUpdate\<close> check the
  record only when asked to validate (here: an empty record is invalid), and address it
  as \<open>at://did/collection/rkey\<close>.
\<close>

definition demo_parseDataKey :: "string \<Rightarrow> error + (string \<times> string)" where
  "demo_parseDataKey key =
     (let collection = takeWhile (\<lambda>c. c \<noteq> CHR ''/'') key;
          rest = dropWhile (\<lambda>c. c \<noteq> CHR ''/'') key
      in if rest = [] \<or> CHR ''/'' \<in> set (tl rest) then Inl (HelperError ''Invalid record key'')
         else Inr (collection, tl rest))"

definition demo_prepare :: "bytes prepare_args \<Rightarrow> error + bytes prepared" where
  "demo_prepare a =
     (if a_validate a \<and> a_record a = [] then Inl (HelperError ''Invalid record'')
      else Inr \<lparr>p_uri = ''at://'' @ a_did a @ ''/'' @ a_collection a @ ''/'' @ a_rkey a,
               p_cid = ''bafyrecord'', p_record = a_record a, p_blobs = []\<rparr>)"

text \<open>
  Modelled from the spec: \<^verbatim>\<open>processWriteBlobs\<close> processes the blob references of the writes:
  a referenced blob must be known to the repository (it has a metadata row), otherwise the
  processing throws; each reference is then recorded as an association row.
\<close>

definition demo_processWriteBlobs ::
  "rev \<Rightarrow> 'r prepared_write list \<Rightarrow> (cid \<times> uri) list \<times> blob_row list
     \<Rightarrow> error + (cid \<times> uri) list \<times> blob_row list" where
  "demo_processWriteBlobs r writes tables =
     (if set (new_blob_cids writes) \<subseteq> set (map r_cid (snd tables))
      then Inr (fold (\<lambda>ref. insert_record_blob (b_cid (snd ref), fst ref))
                  (write_blob_refs writes) (fst tables),
                snd tables)
      else Inl (HelperError ''Could not find blob''))"

text \<open>A variant of the sample \<^verbatim>\<open>prepareCreate\<close>: every record embeds the blob \<open>bafkblobA\<close>.\<close>

definition embedding_prepare :: "bytes prepare_args \<Rightarrow> error + bytes prepared" where
  "embedding_prepare a =
     map_sum id
       (\<lambda>p. p\<lparr>p_blobs := [\<lparr>b_cid = ''bafkblobA'', b_mimeType = ''image/png'', b_size = 10\<rparr>]\<rparr>)
       (demo_prepare a)"

definition demo_car :: block_map where
  "demo_car = [''bafy1'' \<mapsto> [1, 2, 3], ''bafy0'' \<mapsto> []]"

definition demo_evt :: commit_evt where
  "demo_evt =
     \<lparr>repo = ''did:plc:alice'', since = None, evt_rev = ''3kaaa'', commit = ''bafycommit1'',
      prev = None,
      ops = [\<lparr>action = OpCreate, path = ''app.bsky.feed.post/k1'', op_cid = Some ''bafy1''\<rparr>],
      blocks = [7]\<rparr>"

definition dangling_op :: repo_op where
  "dangling_op = \<lparr>action = OpUpdate, path = ''app.bsky.feed.post/k2'', op_cid = Some ''bafy9''\<rparr>"

definition malformed_op :: repo_op where
  "malformed_op = \<lparr>action = OpUpdate, path = ''app.bsky.feed.post/k2/extra'', op_cid = None\<rparr>"

definition delete_op :: repo_op where
  "delete_op = \<lparr>action = OpDelete, path = ''app.bsky.feed.post/k3'', op_cid = None\<rparr>"

definition demo_log :: "seq_evt list" where
  "demo_log =
     [\<lparr>seq = 1, typed = CommitEvt demo_evt\<rparr>,
      \<lparr>seq = 2, typed = OtherEvt ''identity''\<rparr>,
      \<lparr>seq = 3, typed = AccountEvt \<lparr>acct_did = ''did:plc:bob'', status = Deleted\<rparr>\<rparr>]"

definition demo_deps :: "bytes run_deps" where
  "demo_deps =
     \<lparr>readCar = (\<lambda>bs. Inr demo_car),
      parseDataKey = demo_parseDataKey,
      cborToLexRecord = (\<lambda>bs. Inr bs),
      prepareCreate = demo_prepare,
      prepareUpdate = demo_prepare,
      prepareDelete = (\<lambda>did' collection rkey. Inr (''at://'' @ did' @ ''/'' @ collection @ ''/'' @ rkey)),
      formatCommit = (\<lambda>st writes.
         Inr \<lparr>c_cid = ''bafyformatted'', c_rev = ''3k'', c_since = map_option snd (root st),
              c_prev = None, newBlocks = Map.empty, relevantBlocks = Map.empty,
              removedCids = {}\<rparr>),
      processWriteBlobs = demo_processWriteBlobs,
      requestSeqRange = (\<lambda>earliestSeq limit. take limit (filter (\<lambda>e. seq e > earliestSeq) demo_log)),
      clock = (\<lambda>n. ''t'' @ replicate n (CHR ''+'')),
      low_water = 0\<rparr>"

definition embedding_deps :: "bytes run_deps" where
  "embedding_deps = demo_deps\<lparr>prepareCreate := embedding_prepare, prepareUpdate := embedding_prepare\<rparr>"

definition demo_world :: world where
  "demo_world = \<lparr>actors = Map.empty, accounts = {''did:plc:alice'', ''did:plc:bob''}, keys_made = 0\<rparr>"

definition stored_world :: world where
  "stored_world =
     demo_world\<lparr>actors := [''did:plc:alice'' \<mapsto> (empty_store 0)\<lparr>root := Some (''bafyold'', ''3kbbb'')\<rparr>]\<rparr>"

definition older_world :: world where
  "older_world =
     demo_world\<lparr>actors := [''did:plc:alice'' \<mapsto> (empty_store 4)\<lparr>root := Some (''bafyold'', ''3jzzz'')\<rparr>],
                keys_made := 5\<rparr>"

definition invalid_op :: repo_op where
  "invalid_op = \<lparr>action = OpCreate, path = ''app.bsky.feed.post/k0'', op_cid = Some ''bafy0''\<rparr>"

text \<open>A repository with one blob, and writes that refer to it again and to a new one.\<close>

definition blob_store :: actor_store where
  "blob_store =
     (empty_store 0)
       \<lparr>record_blob := [(''bafkblobA'', ''at://did:plc:alice/app.bsky.feed.post/k1'')],
        blob := [\<lparr>r_cid = ''bafkblobA'', r_mimeType = ''image/png'', r_size = 10, r_createdAt = ''t0''\<rparr>]\<rparr>"

definition blob_writes :: "bytes prepared_write list" where
  "blob_writes =
     [Update \<lparr>p_uri = ''at://did:plc:alice/app.bsky.feed.post/k1'', p_cid = ''bafyrecord2'',
              p_record = [4],
              p_blobs = [\<lparr>b_cid = ''bafkblobA'', b_mimeType = ''image/jpeg'', b_size = 11\<rparr>,
                         \<lparr>b_cid = ''bafkblobB'', b_mimeType = ''image/gif'', b_size = 12\<rparr>]\<rparr>,
      Delete ''at://did:plc:alice/app.bsky.feed.post/k0'']"

section \<open>Properties of parseCommitEvt\<close>

lemma promise_all_append:
  "promise_all (xs @ ys) =
     (case promise_all xs of
        Inl e \<Rightarrow> Inl e
      | Inr vs \<Rightarrow> (case promise_all ys of Inl e \<Rightarrow> Inl e | Inr ws \<Rightarrow> Inr (vs @ ws)))"
  by (induction xs rule: promise_all.induct) (auto split: sum.splits)

lemma promise_all_Inl: "Inl e \<in> set rs \<Longrightarrow> \<exists>e'. promise_all rs = Inl e'"
  by (induction rs rule: promise_all.induct) (auto split: sum.splits)

lemma defined_writes_append:
  "defined_writes (xs @ ys) = defined_writes xs @ defined_writes ys"
  by (induction xs rule: defined_writes.induct) auto

lemma parse_op_unresolvable:
  assumes "unresolvable car op" and "parseDataKey d (path op) = Inr ck"
  shows "parse_op d did' car op = Inr None"
  using assms by (cases ck) (auto simp: parse_op_def unresolvable_def split: option.splits)

lemma parse_op_Some_resolvable:
  "parse_op d did' car op = Inr (Some w) \<Longrightarrow> \<not> unresolvable car op"
  by (auto simp: parse_op_def unresolvable_def split: sum.splits prod.splits option.splits if_splits)

lemma parse_op_None_unresolvable:
  "parse_op d did' car op = Inr None \<Longrightarrow> unresolvable car op"
  by (auto simp: parse_op_def unresolvable_def split: sum.splits prod.splits option.splits if_splits)

lemma parse_ops_resolvable:
  "promise_all (map (parse_op d did' car) os) = Inr vs \<Longrightarrow>
   list_all2 (\<lambda>w op. parse_op d did' car op = Inr (Some w))
     (defined_writes vs) (filter (\<lambda>op. \<not> unresolvable car op) os)"
proof (induction os arbitrary: vs)
  case Nil
  then show ?case by auto
next
  case (Cons op os)
  then obtain v vs' where v: "parse_op d did' car op = Inr v"
    and vs': "promise_all (map (parse_op d did' car) os) = Inr vs'" and vs: "vs = v # vs'"
    by (cases "parse_op d did' car op") (auto split: sum.splits)
  show ?case
  proof (cases v)
    case None
    with v have "unresolvable car op" by (simp add: parse_op_None_unresolvable)
    with None vs Cons.IH [OF vs'] show ?thesis by simp
  next
    case (Some w)
    with v have "\<not> unresolvable car op" by (simp add: parse_op_Some_resolvable)
    with Some v vs Cons.IH [OF vs'] show ?thesis by simp
  qed
qed

lemma parse_ops_drop:
  assumes "parse_op d did' car op = Inr None"
  shows "map_sum id defined_writes (promise_all (map (parse_op d did' car) (xs @ op # ys)))
       = map_sum id defined_writes (promise_all (map (parse_op d did' car) (xs @ ys)))"
  using assms by (auto simp: promise_all_append defined_writes_append split: sum.splits)

lemma parseCommitEvt_alt:
  "parseCommitEvt d evt =
     (case readCar d (blocks evt) of
        Inl e \<Rightarrow> Inl e
      | Inr car \<Rightarrow>
          (case map_sum id defined_writes (promise_all (map (parse_op d (repo evt) car) (ops evt))) of
             Inl e \<Rightarrow> Inl e
           | Inr ws \<Rightarrow> Inr (ws, car)))"
  by (auto simp: parseCommitEvt_def split: sum.splits)

text \<open>
  C3, as amended. The path of every operation is parsed before anything is looked up. A
  create or update whose path is well formed and whose record bytes cannot be resolved (no
  content hash, or a hash that is not in the decoded block bundle) yields \<^verbatim>\<open>undefined\<close>,
  not an error, and \<^verbatim>\<open>parseCommitEvt\<close> returns exactly what it returns for the event
  without that operation: the operation is dropped and the others are prepared as before;
  the whole task then does what it does for the event without that operation. An
  operation whose path is malformed makes \<^verbatim>\<open>parseCommitEvt\<close> throw, resolvable or not. A
  delete is never unresolvable and is prepared without looking at the hash or the blocks.
  When \<^verbatim>\<open>parseCommitEvt\<close> succeeds, its writes are, in order, those of the operations
  that are not unresolvable.
\<close>

theorem parseCommitEvt_drops_unresolvable:
  "(readCar d (blocks evt) = Inr car \<and> unresolvable car op \<and> parseDataKey d (path op) = Inr ck
      \<longrightarrow> parse_op d (repo evt) car op = Inr None
        \<and> parseCommitEvt d (evt\<lparr>ops := xs @ op # ys\<rparr>) = parseCommitEvt d (evt\<lparr>ops := xs @ ys\<rparr>)
        \<and> commit_task d now (evt\<lparr>ops := xs @ op # ys\<rparr>) w = commit_task d now (evt\<lparr>ops := xs @ ys\<rparr>) w)
   \<and> (action op = OpDelete
      \<longrightarrow> \<not> unresolvable car op
        \<and> parse_op d did' car op = parse_op d did' car' (op\<lparr>op_cid := c\<rparr>))
   \<and> (parseCommitEvt d evt = Inr (ws, bm)
      \<longrightarrow> readCar d (blocks evt) = Inr bm
        \<and> list_all2 (\<lambda>w op. parse_op d (repo evt) bm op = Inr (Some w))
            ws (filter (\<lambda>op. \<not> unresolvable bm op) (ops evt)))
   \<and> (op \<in> set (ops evt) \<and> parseDataKey d (path op) = Inl e
      \<longrightarrow> (\<exists>e'. parseCommitEvt d evt = Inl e'))"
proof (intro conjI impI)
  assume h: "readCar d (blocks evt) = Inr car \<and> unresolvable car op \<and> parseDataKey d (path op) = Inr ck"
  then show none: "parse_op d (repo evt) car op = Inr None"
    by (simp add: parse_op_unresolvable)
  from h show pe: "parseCommitEvt d (evt\<lparr>ops := xs @ op # ys\<rparr>) = parseCommitEvt d (evt\<lparr>ops := xs @ ys\<rparr>)"
    unfolding parseCommitEvt_alt using parse_ops_drop [OF none, of xs ys] by simp
  show "commit_task d now (evt\<lparr>ops := xs @ op # ys\<rparr>) w = commit_task d now (evt\<lparr>ops := xs @ ys\<rparr>) w"
  proof -
    have t: "commit_txn d now (evt\<lparr>ops := zs\<rparr>) = commit_txn d now evt" for zs
      by (intro ext) (simp add: commit_txn_def Let_def split: option.splits prod.splits sum.splits)
    have c: "processRepoCreation d (evt\<lparr>ops := zs\<rparr>) = processRepoCreation d evt" for zs
      by (intro ext) (simp add: processRepoCreation_def Let_def split: sum.splits)
    show ?thesis
      unfolding commit_task_def pe t c
      by (simp add: Let_def split: sum.splits prod.splits)
  qed
next
  assume "action op = OpDelete"
  then show "\<not> unresolvable car op" by (simp add: unresolvable_def)
next
  assume "action op = OpDelete"
  then show "parse_op d did' car op = parse_op d did' car' (op\<lparr>op_cid := c\<rparr>)"
    by (simp add: parse_op_def split: sum.splits prod.splits)
next
  assume h: "parseCommitEvt d evt = Inr (ws, bm)"
  then show car: "readCar d (blocks evt) = Inr bm"
    by (auto simp: parseCommitEvt_def split: sum.splits)
  from h car obtain vs where "promise_all (map (parse_op d (repo evt) bm) (ops evt)) = Inr vs"
    and "ws = defined_writes vs"
    by (auto simp: parseCommitEvt_def split: sum.splits)
  then show "list_all2 (\<lambda>w op. parse_op d (repo evt) bm op = Inr (Some w))
            ws (filter (\<lambda>op. \<not> unresolvable bm op) (ops evt))"
    using parse_ops_resolvable by blast
next
  assume h: "op \<in> set (ops evt) \<and> parseDataKey d (path op) = Inl e"
  show "\<exists>e'. parseCommitEvt d evt = Inl e'"
  proof (cases "readCar d (blocks evt)")
    case (Inl e0)
    then show ?thesis by (simp add: parseCommitEvt_def)
  next
    case (Inr car0)
    from h have "parse_op d (repo evt) car0 op = Inl e" by (simp add: parse_op_def)
    with h have "Inl e \<in> set (map (parse_op d (repo evt) car0) (ops evt))" by force
    then obtain e' where "promise_all (map (parse_op d (repo evt) car0) (ops evt)) = Inl e'"
      using promise_all_Inl by blast
    with Inr show ?thesis by (simp add: parseCommitEvt_def)
  qed
qed

lemma demo_parse_alice:
  "parseCommitEvt demo_deps (demo_evt\<lparr>ops := ops demo_evt @ [delete_op]\<rparr>)
     = Inr ([Create \<lparr>p_uri = ''at://did:plc:alice/app.bsky.feed.post/k1'', p_cid = ''bafyrecord'',
                      p_record = [1, 2, 3], p_blobs = []\<rparr>,
             Delete ''at://did:plc:alice/app.bsky.feed.post/k3''], demo_car)"
  by (simp add: parseCommitEvt_def parse_op_def demo_deps_def demo_evt_def delete_op_def
      demo_parseDataKey_def demo_prepare_def demo_car_def)

theorem parseCommitEvt_drops_unresolvable_witness:
  "unresolvable demo_car dangling_op
   \<and> parseCommitEvt demo_deps (demo_evt\<lparr>ops := ops demo_evt @ dangling_op # [delete_op]\<rparr>)
     = Inr ([Create \<lparr>p_uri = ''at://did:plc:alice/app.bsky.feed.post/k1'', p_cid = ''bafyrecord'',
                      p_record = [1, 2, 3], p_blobs = []\<rparr>,
             Delete ''at://did:plc:alice/app.bsky.feed.post/k3''], demo_car)
   \<and> (\<exists>e'. parseCommitEvt demo_deps (demo_evt\<lparr>ops := ops demo_evt @ [malformed_op]\<rparr>) = Inl e')"
proof -
  have car: "readCar demo_deps (blocks demo_evt) = Inr demo_car"
    by (simp add: demo_deps_def)
  have bad: "malformed_op \<in> set (ops (demo_evt\<lparr>ops := ops demo_evt @ [malformed_op]\<rparr>))"
    "parseDataKey demo_deps (path malformed_op) = Inl (HelperError ''Invalid record key'')"
    by (simp_all add: demo_deps_def malformed_op_def demo_parseDataKey_def)
  have un: "unresolvable demo_car dangling_op"
    by (simp add: unresolvable_def dangling_op_def demo_car_def)
  have key: "parseDataKey demo_deps (path dangling_op) = Inr (''app.bsky.feed.post'', ''k2'')"
    by (simp add: demo_deps_def dangling_op_def demo_parseDataKey_def)
  from parseCommitEvt_drops_unresolvable
         [of demo_deps demo_evt demo_car dangling_op _ "ops demo_evt" "[delete_op]"]
       car un key demo_parse_alice
  have "parseCommitEvt demo_deps (demo_evt\<lparr>ops := ops demo_evt @ dangling_op # [delete_op]\<rparr>)
     = Inr ([Create \<lparr>p_uri = ''at://did:plc:alice/app.bsky.feed.post/k1'', p_cid = ''bafyrecord'',
                      p_record = [1, 2, 3], p_blobs = []\<rparr>,
             Delete ''at://did:plc:alice/app.bsky.feed.post/k3''], demo_car)"
    by simp
  moreover from parseCommitEvt_drops_unresolvable
         [where d = demo_deps and evt = "demo_evt\<lparr>ops := ops demo_evt @ [malformed_op]\<rparr>"
            and op = malformed_op and e = "HelperError ''Invalid record key''"]
       bad
  have "\<exists>e'. parseCommitEvt demo_deps (demo_evt\<lparr>ops := ops demo_evt @ [malformed_op]\<rparr>) = Inl e'"
    by blast
  ultimately show ?thesis using un by blast
qed

text \<open>
  C3 as stated fails: an update without content hash is unresolvable, yet with a path of
  three parts it is not dropped. \<^verbatim>\<open>parseDataKey\<close> throws on the path before the hash is
  looked at, and the whole commit fails, although the event without that operation parses
  and its task succeeds.
\<close>

theorem unresolvable_malformed_path_counterexample:
  "unresolvable demo_car malformed_op
   \<and> parseCommitEvt demo_deps (demo_evt\<lparr>ops := ops demo_evt @ [malformed_op]\<rparr>)
       = Inl (HelperError ''Invalid record key'')
   \<and> commit_task demo_deps ''t'' (demo_evt\<lparr>ops := ops demo_evt @ [malformed_op]\<rparr>) demo_world
       = (Some (HelperError ''Invalid record key''), demo_world)
   \<and> parseCommitEvt demo_deps demo_evt
       = Inr ([Create \<lparr>p_uri = ''at://did:plc:alice/app.bsky.feed.post/k1'', p_cid = ''bafyrecord'',
                        p_record = [1, 2, 3], p_blobs = []\<rparr>], demo_car)
   \<and> fst (commit_task demo_deps ''t'' demo_evt demo_world) = None"
proof -
  have bad: "parseCommitEvt demo_deps (demo_evt\<lparr>ops := ops demo_evt @ [malformed_op]\<rparr>)
       = Inl (HelperError ''Invalid record key'')"
    by (simp add: parseCommitEvt_def parse_op_def demo_deps_def demo_evt_def malformed_op_def
        demo_parseDataKey_def demo_prepare_def demo_car_def)
  have good: "parseCommitEvt demo_deps demo_evt
       = Inr ([Create \<lparr>p_uri = ''at://did:plc:alice/app.bsky.feed.post/k1'', p_cid = ''bafyrecord'',
                        p_record = [1, 2, 3], p_blobs = []\<rparr>], demo_car)"
    by (simp add: parseCommitEvt_def parse_op_def demo_deps_def demo_evt_def
        demo_parseDataKey_def demo_prepare_def demo_car_def)
  have task: "fst (commit_task demo_deps ''t'' demo_evt demo_world) = None"
    unfolding commit_task_def good
    by (simp add: demo_evt_def demo_world_def actor_exists_def processRepoCreation_def
        actor_create_def transact_def genesis_txn_def demo_deps_def demo_processWriteBlobs_def
        indexWrites_def applyCommit_def empty_store_def Let_def)
  show ?thesis
    using bad good task
    by (simp add: unresolvable_def malformed_op_def commit_task_def)
qed

section \<open>Properties of the commit task\<close>


lemma root_indexWrites: "root (indexWrites writes r st) = root st"
  unfolding indexWrites_def
proof (induction writes arbitrary: st)
  case Nil
  show ?case by simp
next
  case (Cons w ws)
  show ?case by (cases w) (simp_all add: Cons.IH)
qed

lemma signing_key_indexWrites: "signing_key (indexWrites writes r st) = signing_key st"
  unfolding indexWrites_def
proof (induction writes arbitrary: st)
  case Nil
  show ?case by simp
next
  case (Cons w ws)
  show ?case by (cases w) (simp_all add: Cons.IH)
qed

lemma root_upsert_fold: "root (fold (upsert_blob now u) bs st) = root st"
  by (induction bs arbitrary: st) (simp_all add: upsert_blob_def)

lemma signing_key_upsert_fold: "signing_key (fold (upsert_blob now u) bs st) = signing_key st"
  by (induction bs arbitrary: st) (simp_all add: upsert_blob_def)

lemma root_upsert_writes: "root (upsert_writes now writes st) = root st"
  unfolding upsert_writes_def
proof (induction writes arbitrary: st)
  case Nil
  show ?case by simp
next
  case (Cons w ws)
  show ?case by (cases w) (simp_all add: Cons.IH root_upsert_fold)
qed

lemma signing_key_upsert_writes: "signing_key (upsert_writes now writes st) = signing_key st"
  unfolding upsert_writes_def
proof (induction writes arbitrary: st)
  case Nil
  show ?case by simp
next
  case (Cons w ws)
  show ?case by (cases w) (simp_all add: Cons.IH signing_key_upsert_fold)
qed

lemma root_trackBlobs: "root (trackBlobs now writes st) = root st"
  by (simp add: trackBlobs_def root_upsert_writes deleteDereferencedBlobs_def Let_def)

lemma signing_key_trackBlobs: "signing_key (trackBlobs now writes st) = signing_key st"
  by (simp add: trackBlobs_def signing_key_upsert_writes deleteDereferencedBlobs_def Let_def)

lemma commit_txn_skip:
  assumes "root st = Some (rc, rr)" and "rr \<ge> evt_rev evt"
  shows "commit_txn d now evt writes car st = Inr st"
  using assms by (simp add: commit_txn_def)

lemma commit_txn_root:
  assumes "commit_txn d now evt writes car st = Inr st'"
  shows "\<exists>rc rr. root st' = Some (rc, rr) \<and> rr \<ge> evt_rev evt"
  using assms
  by (auto simp: commit_txn_def Let_def root_trackBlobs root_indexWrites applyCommit_def
      split: option.splits prod.splits if_splits sum.splits)

lemma commit_txn_signing_key:
  assumes "commit_txn d now evt writes car st = Inr st'"
  shows "signing_key st' = signing_key st"
  using assms
  by (auto simp: commit_txn_def Let_def signing_key_trackBlobs signing_key_indexWrites applyCommit_def
      split: option.splits prod.splits if_splits sum.splits)

lemma genesis_txn_root:
  assumes "genesis_txn d c writes st = Inr st'"
  shows "root st' = Some (c_cid c, c_rev c)"
  using assms
  by (auto simp: genesis_txn_def Let_def root_indexWrites applyCommit_def
      split: sum.splits prod.splits)

lemma world_upd_same: "actors w k = Some st \<Longrightarrow> w\<lparr>actors := (actors w)(k \<mapsto> st)\<rparr> = w"
  by (simp add: map_upd_triv)

lemma transact_skip:
  assumes "actors w k = Some st" and "fn st = Inr st"
  shows "transact w k fn = (None, w)"
  using assms by (simp add: transact_def world_upd_same)

lemma commit_task_skip:
  assumes "actors w (repo evt) = Some st" and "root st = Some (rc, rr)" and "rr \<ge> evt_rev evt"
  shows "commit_task d now evt w =
           (case parseCommitEvt d evt of Inl e \<Rightarrow> (Some e, w) | Inr x \<Rightarrow> (None, w))"
  using assms
  by (auto simp: commit_task_def actor_exists_def transact_skip commit_txn_skip
      split: sum.splits prod.splits)

lemma commit_task_twice:
  "snd (commit_task d now' evt (snd (commit_task d now evt w))) = snd (commit_task d now evt w)"
proof (cases "parseCommitEvt d evt")
  case (Inl e)
  then show ?thesis by (simp add: commit_task_def)
next
  case (Inr x)
  obtain writes car where x: "x = (writes, car)" by (cases x)
  note p = Inr [unfolded x]
  show ?thesis
  proof (cases "since evt = None \<and> \<not> actor_exists w (repo evt)")
    case True
    define w2 where "w2 = w\<lparr>keys_made := Suc (keys_made w),
                            actors := (actors w)(repo evt \<mapsto> empty_store (keys_made w))\<rparr>"
    define c where "c = \<lparr>c_cid = commit evt, c_rev = evt_rev evt, c_since = since evt,
        c_prev = prev evt, newBlocks = car, relevantBlocks = Map.empty, removedCids = {}\<rparr>"
    have first: "commit_task d now evt w = transact w2 (repo evt) (genesis_txn d c writes)"
      using True p
      by (simp add: commit_task_def processRepoCreation_def actor_create_def actor_exists_def
          Let_def w2_def c_def)
    have a2: "actors w2 (repo evt) = Some (empty_store (keys_made w))"
      by (simp add: w2_def)
    show ?thesis
    proof (cases "genesis_txn d c writes (empty_store (keys_made w))")
      case (Inl e)
      then have w1: "snd (commit_task d now evt w) = w2"
        by (simp add: first transact_def a2)
      have "commit_task d now' evt w2 = (Some (NoRepoRoot (repo evt)), w2)"
        using p a2
        by (simp add: commit_task_def actor_exists_def transact_def commit_txn_def empty_store_def)
      then show ?thesis by (simp add: w1)
    next
      case (Inr st')
      define w3 where "w3 = w2\<lparr>actors := (actors w2)(repo evt \<mapsto> st')\<rparr>"
      from Inr have w1: "snd (commit_task d now evt w) = w3"
        by (simp add: first transact_def a2 w3_def)
      have r: "root st' = Some (commit evt, evt_rev evt)"
        using genesis_txn_root [OF Inr] by (simp add: c_def)
      have a3: "actors w3 (repo evt) = Some st'" by (simp add: w3_def)
      have "snd (commit_task d now' evt w3) = w3"
        using commit_task_skip [OF a3 r, of d now'] by (simp split: sum.splits)
      then show ?thesis by (simp add: w1)
    qed
  next
    case False
    then have first: "commit_task d now evt w = transact w (repo evt) (commit_txn d now evt writes car)"
      using p by (auto simp: commit_task_def)
    show ?thesis
    proof (cases "actors w (repo evt)")
      case None
      then have "commit_task d now'' evt w = (Some (RepoNotFound (repo evt)), w)" for now''
        using False p by (auto simp: commit_task_def transact_def actor_exists_def)
      then show ?thesis by simp
    next
      case (Some st)
      show ?thesis
      proof (cases "commit_txn d now evt writes car st")
        case (Inl e)
        then have w1: "snd (commit_task d now evt w) = w"
          by (simp add: first transact_def Some)
        have same: "commit_txn d now' evt writes car st = Inl e' \<Longrightarrow> snd (commit_task d now' evt w) = w" for e'
          using False p Some by (auto simp: commit_task_def transact_def)
        show ?thesis
        proof (cases "commit_txn d now' evt writes car st")
          case (Inl e')
          then show ?thesis using same w1 by simp
        next
          case (Inr st'')
          have "commit_txn d now' evt writes car st = Inl e"
            using Inl by (auto simp: commit_txn_def Let_def split: option.splits prod.splits if_splits sum.splits)
          with Inr show ?thesis by simp
        qed
      next
        case (Inr st')
        define w3 where "w3 = w\<lparr>actors := (actors w)(repo evt \<mapsto> st')\<rparr>"
        from Inr have w1: "snd (commit_task d now evt w) = w3"
          by (simp add: first transact_def Some w3_def)
        obtain rc rr where r: "root st' = Some (rc, rr)" and ge: "rr \<ge> evt_rev evt"
          using commit_txn_root [OF Inr] by blast
        have a3: "actors w3 (repo evt) = Some st'" by (simp add: w3_def)
        have "snd (commit_task d now' evt w3) = w3"
          using commit_task_skip [OF a3 r ge, of d now'] by (simp split: sum.splits)
        then show ?thesis by (simp add: w1)
      qed
    qed
  qed
qed

text \<open>
  C1. When the repository exists and its stored revision is at least the revision of the
  event, the transaction's callback returns at once with the repository as it is, and the
  task leaves the stores unchanged (it fails only if the event cannot be parsed), whatever
  \<^verbatim>\<open>formatCommit\<close> would do. Consequently, for every event and every state of the stores,
  running the task a second time (at any later time \<open>now'\<close>) leaves the stores as the first
  run left them.
\<close>

theorem revision_gate_idempotent:
  "(actors w (repo evt) = Some st \<and> root st = Some (rc, rr) \<and> rr \<ge> evt_rev evt
      \<longrightarrow> commit_txn d now evt writes car st = Inr st
        \<and> commit_task d now evt w =
            (case parseCommitEvt d evt of Inl e \<Rightarrow> (Some e, w) | Inr x \<Rightarrow> (None, w)))
   \<and> snd (commit_task d now' evt (snd (commit_task d now evt w))) = snd (commit_task d now evt w)"
  using commit_txn_skip commit_task_skip commit_task_twice by blast


lemma demo_parse_evt:
  "parseCommitEvt demo_deps demo_evt
     = Inr ([Create \<lparr>p_uri = ''at://did:plc:alice/app.bsky.feed.post/k1'', p_cid = ''bafyrecord'',
                      p_record = [1, 2, 3], p_blobs = []\<rparr>], demo_car)"
  by (simp add: parseCommitEvt_def parse_op_def demo_deps_def demo_evt_def
      demo_parseDataKey_def demo_prepare_def demo_car_def)

lemma embedding_parse_evt:
  "parseCommitEvt embedding_deps demo_evt
     = Inr ([Create \<lparr>p_uri = ''at://did:plc:alice/app.bsky.feed.post/k1'', p_cid = ''bafyrecord'',
                      p_record = [1, 2, 3],
                      p_blobs = [\<lparr>b_cid = ''bafkblobA'', b_mimeType = ''image/png'', b_size = 10\<rparr>]\<rparr>],
            demo_car)"
  by (simp add: parseCommitEvt_def parse_op_def embedding_deps_def demo_deps_def demo_evt_def
      demo_parseDataKey_def demo_prepare_def embedding_prepare_def demo_car_def)

text \<open>
  The revision check at work: the stored revision \<open>3kbbb\<close> is above the event's \<open>3kaaa\<close>; and a
  replay of the genesis event of the sample account.
\<close>

theorem revision_gate_idempotent_witness:
  "commit_task demo_deps ''t'' demo_evt stored_world = (None, stored_world)
   \<and> snd (commit_task demo_deps ''t+'' demo_evt (snd (commit_task demo_deps ''t'' demo_evt demo_world)))
     = snd (commit_task demo_deps ''t'' demo_evt demo_world)"
proof -
  have a: "actors stored_world (repo demo_evt) = Some ((empty_store 0)\<lparr>root := Some (''bafyold'', ''3kbbb'')\<rparr>)"
    by (simp add: stored_world_def demo_evt_def)
  have r: "root ((empty_store 0)\<lparr>root := Some (''bafyold'', ''3kbbb'')\<rparr>) = Some (''bafyold'', ''3kbbb'')"
    by simp
  have ge: "(''3kbbb'' :: string) \<ge> evt_rev demo_evt"
    by (simp add: demo_evt_def)
  from revision_gate_idempotent
         [of stored_world demo_evt "(empty_store 0)\<lparr>root := Some (''bafyold'', ''3kbbb'')\<rparr>"
             "''bafyold''" "''3kbbb''" demo_deps "''t''" _ _ "''t+''"]
       a r ge demo_parse_evt
  have "commit_task demo_deps ''t'' demo_evt stored_world = (None, stored_world)" by simp
  with revision_gate_idempotent [of demo_world demo_evt _ _ _ demo_deps "''t''" _ _ "''t+''"]
  show ?thesis by blast
qed


lemma transact_keys_made: "keys_made (snd (transact w k fn)) = keys_made w"
  by (simp add: transact_def split: option.splits sum.splits)

lemma transact_dom: "dom (actors (snd (transact w k fn))) = dom (actors w)"
  by (auto simp: transact_def split: option.splits sum.splits)

lemma transact_other: "k' \<noteq> k \<Longrightarrow> actors (snd (transact w k fn)) k' = actors w k'"
  by (auto simp: transact_def split: option.splits sum.splits)

lemma transact_accounts: "accounts (snd (transact w k fn)) = accounts w"
  by (auto simp: transact_def split: option.splits sum.splits)

lemma transact_signing_key:
  assumes "\<And>st st'. fn st = Inr st' \<Longrightarrow> signing_key st' = signing_key st"
  shows "map_option signing_key (actors (snd (transact w k fn)) k) = map_option signing_key (actors w k)"
  using assms by (auto simp: transact_def split: option.splits sum.splits)

text \<open>
  C10. A commit event without \<^verbatim>\<open>since\<close> whose repository exists takes the ordinary path:
  the task is the transaction of \<^verbatim>\<open>processCommit\<close> (with its revision gate), no signing
  identity is generated, no repository is created or removed, and the repository keeps
  the identity it has.
\<close>

theorem existing_repo_null_since:
  "since evt = None \<and> actor_exists w (repo evt) \<longrightarrow>
     commit_task d now evt w =
       (case parseCommitEvt d evt of
          Inl e \<Rightarrow> (Some e, w)
        | Inr (writes, car) \<Rightarrow> transact w (repo evt) (commit_txn d now evt writes car))
     \<and> keys_made (snd (commit_task d now evt w)) = keys_made w
     \<and> dom (actors (snd (commit_task d now evt w))) = dom (actors w)
     \<and> map_option signing_key (actors (snd (commit_task d now evt w)) (repo evt))
         = map_option signing_key (actors w (repo evt))
     \<and> (\<forall>st rc rr. actors w (repo evt) = Some st \<and> root st = Some (rc, rr) \<and> evt_rev evt \<le> rr
          \<longrightarrow> snd (commit_task d now evt w) = w)"
proof (intro impI)
  assume h: "since evt = None \<and> actor_exists w (repo evt)"
  then have eq: "commit_task d now evt w =
       (case parseCommitEvt d evt of
          Inl e \<Rightarrow> (Some e, w)
        | Inr (writes, car) \<Rightarrow> transact w (repo evt) (commit_txn d now evt writes car))"
    by (auto simp: commit_task_def Let_def split: sum.splits prod.splits)
  have k: "keys_made (snd (commit_task d now evt w)) = keys_made w"
    unfolding eq by (simp add: transact_keys_made split: sum.splits prod.splits)
  have dm: "dom (actors (snd (commit_task d now evt w))) = dom (actors w)"
    unfolding eq by (simp add: transact_dom split: sum.splits prod.splits)
  have sk: "map_option signing_key (actors (snd (commit_task d now evt w)) (repo evt))
         = map_option signing_key (actors w (repo evt))"
    unfolding eq
    by (auto simp: transact_signing_key commit_txn_signing_key split: sum.splits prod.splits)
  have gate: "\<forall>st rc rr. actors w (repo evt) = Some st \<and> root st = Some (rc, rr) \<and> evt_rev evt \<le> rr
          \<longrightarrow> snd (commit_task d now evt w) = w"
    using commit_task_skip [of w evt _ _ _ d now]
    by (auto split: sum.splits prod.splits)
  from eq k dm sk gate
  show "commit_task d now evt w =
       (case parseCommitEvt d evt of
          Inl e \<Rightarrow> (Some e, w)
        | Inr (writes, car) \<Rightarrow> transact w (repo evt) (commit_txn d now evt writes car))
     \<and> keys_made (snd (commit_task d now evt w)) = keys_made w
     \<and> dom (actors (snd (commit_task d now evt w))) = dom (actors w)
     \<and> map_option signing_key (actors (snd (commit_task d now evt w)) (repo evt))
         = map_option signing_key (actors w (repo evt))
     \<and> (\<forall>st rc rr. actors w (repo evt) = Some st \<and> root st = Some (rc, rr) \<and> evt_rev evt \<le> rr
          \<longrightarrow> snd (commit_task d now evt w) = w)"
    by blast
qed


text \<open>
  The sample event replayed on a repository that exists, with an older revision.
\<close>

theorem existing_repo_null_since_witness:
  "since demo_evt = None \<and> actor_exists older_world (repo demo_evt)
   \<and> keys_made (snd (commit_task demo_deps ''t'' demo_evt older_world)) = 5
   \<and> dom (actors (snd (commit_task demo_deps ''t'' demo_evt older_world))) = {''did:plc:alice''}
   \<and> map_option signing_key (actors (snd (commit_task demo_deps ''t'' demo_evt older_world)) ''did:plc:alice'')
       = Some 4"
proof -
  have h: "since demo_evt = None \<and> actor_exists older_world (repo demo_evt)"
    by (simp add: demo_evt_def older_world_def actor_exists_def)
  have r: "repo demo_evt = ''did:plc:alice''" by (simp add: demo_evt_def)
  have o: "keys_made older_world = 5" "dom (actors older_world) = {''did:plc:alice''}"
    "map_option signing_key (actors older_world ''did:plc:alice'') = Some 4"
    by (simp_all add: older_world_def empty_store_def)
  from existing_repo_null_since [of demo_evt older_world demo_deps "''t''"] h
  show ?thesis unfolding r o by blast
qed


lemma genesis_txn_empty_store:
  "genesis_txn d
     \<lparr>c_cid = cc, c_rev = cr, c_since = cs, c_prev = cp, newBlocks = car,
      relevantBlocks = Map.empty, removedCids = {}\<rparr> writes (empty_store k)
   = (case processWriteBlobs d cr writes ([], []) of
        Inl e \<Rightarrow> Inl e
      | Inr (rb, bl) \<Rightarrow>
          Inr \<lparr>signing_key = k, root = Some (cc, cr), repo_block = car,
               record_index = record_index (indexWrites writes cr (empty_store k)),
               record_blob = rb, blob = bl\<rparr>)"
proof -
  have a: "record_blob (indexWrites writes r st) = record_blob st
         \<and> blob (indexWrites writes r st) = blob st
         \<and> repo_block (indexWrites writes r st) = repo_block st" for r st
    unfolding indexWrites_def
  proof (induction writes arbitrary: st)
    case Nil
    show ?case by simp
  next
    case (Cons x xs)
    show ?case by (cases x) (simp_all add: Cons.IH)
  qed
  have b: "record_index (indexWrites writes r (st\<lparr>root := x, repo_block := y\<rparr>))
         = record_index (indexWrites writes r st)" for r st x y
    unfolding indexWrites_def
  proof (induction writes arbitrary: st)
    case Nil
    show ?case by simp
  next
    case (Cons x xs)
    have "index_write r x (st\<lparr>root := x', repo_block := y'\<rparr>) = (index_write r x st)\<lparr>root := x', repo_block := y'\<rparr>" for x' y'
      by (cases x) simp_all
    then show ?case by (simp add: Cons.IH)
  qed
  define c where "c = \<lparr>c_cid = cc, c_rev = cr, c_since = cs,
        c_prev = cp, newBlocks = car, relevantBlocks = Map.empty, removedCids = {}\<rparr>"
  define st1 where "st1 = indexWrites writes cr (applyCommit c True (empty_store k))"
  have f1: "signing_key st1 = k" "root st1 = Some (cc, cr)" "repo_block st1 = car"
    "record_blob st1 = []" "blob st1 = []"
    by (simp_all add: st1_def a root_indexWrites signing_key_indexWrites applyCommit_def
        empty_store_def c_def)
  have f2: "record_index st1 = record_index (indexWrites writes cr (empty_store k))"
    by (simp add: st1_def applyCommit_def b)
  have crev: "c_rev c = cr" by (simp add: c_def)
  have e: "st1\<lparr>record_blob := rb, blob := bl\<rparr> =
      \<lparr>signing_key = k, root = Some (cc, cr), repo_block = car,
       record_index = record_index (indexWrites writes cr (empty_store k)),
       record_blob = rb, blob = bl\<rparr>" for rb bl
    by (rule actor_store.equality) (simp_all add: f1 f2)
  have "genesis_txn d c writes (empty_store k)
      = (case processWriteBlobs d cr writes ([], []) of
           Inl e \<Rightarrow> Inl e
         | Inr (rb, bl) \<Rightarrow> Inr (st1\<lparr>record_blob := rb, blob := bl\<rparr>))"
    unfolding genesis_txn_def Let_def crev st1_def [symmetric] by (simp add: f1)
  then show ?thesis
    unfolding c_def [symmetric] by (simp add: e split: sum.splits prod.splits)
qed

text \<open>
  C2, as amended. A commit event without \<^verbatim>\<open>since\<close> for an account without repository. When
  it cannot be parsed the task throws and changes nothing. Otherwise the task generates
  one signing identity (the next reading of the counter of identities), creates the one
  repository of the account with it, and runs the first commit in a transaction. When the
  blob processing succeeds the commit is applied: the stored head and revision are the
  event's, the blocks are the event's blocks, the index is the index of the writes, and
  the blob tables are those \<^verbatim>\<open>processWriteBlobs\<close> returns. When it throws, the transaction
  is undone, the task throws, and the new repository stays as it was created, with its
  identity and without a stored revision. Nothing else in the stores changes.
\<close>

theorem genesis_creation:
  assumes "since evt = None" and "\<not> actor_exists w (repo evt)"
  shows "commit_task d now evt w =
           (case parseCommitEvt d evt of
              Inl e \<Rightarrow> (Some e, w)
            | Inr (writes, car) \<Rightarrow>
                (case processWriteBlobs d (evt_rev evt) writes ([], []) of
                   Inl e \<Rightarrow>
                     (Some e,
                      w\<lparr>keys_made := Suc (keys_made w),
                        actors := (actors w)(repo evt \<mapsto> empty_store (keys_made w))\<rparr>)
                 | Inr (rb, bl) \<Rightarrow>
                     (None,
                      w\<lparr>keys_made := Suc (keys_made w),
                        actors := (actors w)(repo evt \<mapsto>
                          \<lparr>signing_key = keys_made w,
                           root = Some (commit evt, evt_rev evt),
                           repo_block = car,
                           record_index =
                             record_index (indexWrites writes (evt_rev evt) (empty_store (keys_made w))),
                           record_blob = rb,
                           blob = bl\<rparr>)\<rparr>)))"
proof (cases "parseCommitEvt d evt")
  case (Inl e)
  then show ?thesis by (simp add: commit_task_def)
next
  case (Inr x)
  obtain writes car where x: "x = (writes, car)" by (cases x)
  have "commit_task d now evt w =
      transact (w\<lparr>keys_made := Suc (keys_made w),
                  actors := (actors w)(repo evt \<mapsto> empty_store (keys_made w))\<rparr>)
        (repo evt)
        (genesis_txn d
           \<lparr>c_cid = commit evt, c_rev = evt_rev evt, c_since = since evt, c_prev = prev evt,
            newBlocks = car, relevantBlocks = Map.empty, removedCids = {}\<rparr> writes)"
    using assms Inr x
    by (simp add: commit_task_def processRepoCreation_def actor_create_def actor_exists_def
        Let_def)
  then show ?thesis
    using Inr x
    by (simp add: transact_def genesis_txn_empty_store split: sum.splits prod.splits)
qed

text \<open>
  The genesis of the sample account, whose record embeds no blob; and the same event when
  its record embeds a blob that the new repository does not know.
\<close>

theorem genesis_creation_witness:
  "since demo_evt = None \<and> \<not> actor_exists demo_world (repo demo_evt)
   \<and> commit_task demo_deps ''t'' demo_evt demo_world =
       (None,
        demo_world\<lparr>keys_made := 1,
          actors := [''did:plc:alice'' \<mapsto>
            \<lparr>signing_key = 0,
             root = Some (''bafycommit1'', ''3kaaa''),
             repo_block = demo_car,
             record_index = [''at://did:plc:alice/app.bsky.feed.post/k1'' \<mapsto> (''bafyrecord'', ''3kaaa'')],
             record_blob = [],
             blob = []\<rparr>]\<rparr>)
   \<and> commit_task embedding_deps ''t'' demo_evt demo_world =
       (Some (HelperError ''Could not find blob''),
        demo_world\<lparr>keys_made := 1, actors := [''did:plc:alice'' \<mapsto> empty_store 0]\<rparr>)"
proof -
  have h1: "since demo_evt = None" by (simp add: demo_evt_def)
  have h2: "\<not> actor_exists demo_world (repo demo_evt)"
    by (simp add: actor_exists_def demo_world_def)
  have h4: "processWriteBlobs demo_deps (evt_rev demo_evt)
              [Create \<lparr>p_uri = ''at://did:plc:alice/app.bsky.feed.post/k1'', p_cid = ''bafyrecord'',
                      p_record = [1, 2, 3], p_blobs = []\<rparr>] ([], []) = Inr ([], [])"
    by (simp add: demo_deps_def demo_processWriteBlobs_def)
  have h5: "processWriteBlobs embedding_deps (evt_rev demo_evt)
              [Create \<lparr>p_uri = ''at://did:plc:alice/app.bsky.feed.post/k1'', p_cid = ''bafyrecord'',
                      p_record = [1, 2, 3],
                      p_blobs = [\<lparr>b_cid = ''bafkblobA'', b_mimeType = ''image/png'', b_size = 10\<rparr>]\<rparr>]
              ([], []) = Inl (HelperError ''Could not find blob'')"
    by (simp add: embedding_deps_def demo_deps_def demo_processWriteBlobs_def)
  have e: "repo demo_evt = ''did:plc:alice''" "commit demo_evt = ''bafycommit1''"
    "evt_rev demo_evt = ''3kaaa''"
    by (simp_all add: demo_evt_def)
  have i: "record_index (indexWrites
             [Create \<lparr>p_uri = ''at://did:plc:alice/app.bsky.feed.post/k1'', p_cid = ''bafyrecord'',
                      p_record = [1, 2, 3 :: 8 word], p_blobs = []\<rparr>] ''3kaaa'' (empty_store 0))
           = [''at://did:plc:alice/app.bsky.feed.post/k1'' \<mapsto> (''bafyrecord'', ''3kaaa'')]"
    by (simp add: indexWrites_def empty_store_def)
  have k: "keys_made demo_world = 0" "actors demo_world = Map.empty"
    by (simp_all add: demo_world_def)
  from genesis_creation [OF h1 h2, of demo_deps "''t''"]
       genesis_creation [OF h1 h2, of embedding_deps "''t''"]
       h1 h2 h4 h5 demo_parse_evt embedding_parse_evt
  show ?thesis by (simp add: e i k)
qed

text \<open>
  C2 as stated fails. An event without \<^verbatim>\<open>since\<close> for an account without repository that
  cannot be parsed creates neither an identity nor a repository. And when the blob
  processing throws, an identity is used and a repository exists, but it has no stored
  revision: its first stored revision is not the event's.
\<close>

theorem genesis_creation_counterexample:
  "since (demo_evt\<lparr>ops := ops demo_evt @ [malformed_op]\<rparr>) = None
   \<and> \<not> actor_exists demo_world (repo (demo_evt\<lparr>ops := ops demo_evt @ [malformed_op]\<rparr>))
   \<and> commit_task demo_deps ''t'' (demo_evt\<lparr>ops := ops demo_evt @ [malformed_op]\<rparr>) demo_world
       = (Some (HelperError ''Invalid record key''), demo_world)
   \<and> since demo_evt = None
   \<and> \<not> actor_exists demo_world (repo demo_evt)
   \<and> keys_made (snd (commit_task embedding_deps ''t'' demo_evt demo_world)) = 1
   \<and> map_option root (actors (snd (commit_task embedding_deps ''t'' demo_evt demo_world)) ''did:plc:alice'')
       = Some None"
proof -
  have bad: "parseCommitEvt demo_deps (demo_evt\<lparr>ops := ops demo_evt @ [malformed_op]\<rparr>)
       = Inl (HelperError ''Invalid record key'')"
    by (simp add: parseCommitEvt_def parse_op_def demo_deps_def demo_evt_def malformed_op_def
        demo_parseDataKey_def demo_prepare_def demo_car_def)
  have h1: "since demo_evt = None" by (simp add: demo_evt_def)
  have h2: "\<not> actor_exists demo_world (repo demo_evt)"
    by (simp add: actor_exists_def demo_world_def)
  have t: "commit_task embedding_deps ''t'' demo_evt demo_world
      = transact (demo_world\<lparr>keys_made := 1, actors := [''did:plc:alice'' \<mapsto> empty_store 0]\<rparr>)
          ''did:plc:alice''
          (genesis_txn embedding_deps
             \<lparr>c_cid = ''bafycommit1'', c_rev = ''3kaaa'', c_since = None, c_prev = None,
              newBlocks = demo_car, relevantBlocks = Map.empty, removedCids = {}\<rparr>
             [Create \<lparr>p_uri = ''at://did:plc:alice/app.bsky.feed.post/k1'', p_cid = ''bafyrecord'',
                      p_record = [1, 2, 3],
                      p_blobs = [\<lparr>b_cid = ''bafkblobA'', b_mimeType = ''image/png'', b_size = 10\<rparr>]\<rparr>])"
    unfolding commit_task_def embedding_parse_evt
    by (simp add: processRepoCreation_def actor_create_def actor_exists_def Let_def)
       (simp add: demo_evt_def demo_world_def)
  have g: "genesis_txn embedding_deps
             \<lparr>c_cid = ''bafycommit1'', c_rev = ''3kaaa'', c_since = None, c_prev = None,
              newBlocks = demo_car, relevantBlocks = Map.empty, removedCids = {}\<rparr>
             [Create \<lparr>p_uri = ''at://did:plc:alice/app.bsky.feed.post/k1'', p_cid = ''bafyrecord'',
                      p_record = [1, 2, 3],
                      p_blobs = [\<lparr>b_cid = ''bafkblobA'', b_mimeType = ''image/png'', b_size = 10\<rparr>]\<rparr>]
             (empty_store 0) = Inl (HelperError ''Could not find blob'')"
    by (simp add: genesis_txn_def Let_def indexWrites_def applyCommit_def empty_store_def
        embedding_deps_def demo_deps_def demo_processWriteBlobs_def)
  have c1: "commit_task demo_deps ''t'' (demo_evt\<lparr>ops := ops demo_evt @ [malformed_op]\<rparr>) demo_world
       = (Some (HelperError ''Invalid record key''), demo_world)"
    using bad by (simp add: commit_task_def)
  have c2: "commit_task embedding_deps ''t'' demo_evt demo_world
       = (Some (HelperError ''Could not find blob''),
          demo_world\<lparr>keys_made := 1, actors := [''did:plc:alice'' \<mapsto> empty_store 0]\<rparr>)"
    by (simp add: t transact_def g)
  have r: "repo demo_evt = ''did:plc:alice''" by (simp add: demo_evt_def)
  show ?thesis
    using h1 h2 by (simp add: c1 c2 r empty_store_def)
qed


text \<open>
  C6. An account event whose status is not \<open>deleted\<close> changes nothing. One whose status is
  \<open>deleted\<close> appends one task to the queue, keyed by the account id; that task removes the
  account's storage location and its account-management record and does not fail; when
  the location is absent already, only the record goes.
\<close>

theorem account_deletion:
  "(status evt \<noteq> Deleted \<longrightarrow>
      processAccountEvt evt r = r \<and> processEvent \<lparr>seq = n, typed = AccountEvt evt\<rparr> r = r)
   \<and> (status evt = Deleted \<longrightarrow>
      processAccountEvt evt r =
        r\<lparr>queues := (queues r)
            \<lparr>pending := pending (queues r) @ [(acct_did evt, AccountDeleteTask (acct_did evt))]\<rparr>\<rparr>)
   \<and> run_task d now (AccountDeleteTask did') w =
        (None, w\<lparr>actors := (actors w)(did' := None), accounts := accounts w - {did'}\<rparr>)
   \<and> (actors w did' = None \<longrightarrow>
        run_task d now (AccountDeleteTask did') w = (None, w\<lparr>accounts := accounts w - {did'}\<rparr>))"
proof -
  have "actors w did' = None \<Longrightarrow> w\<lparr>actors := (actors w)(did' := None)\<rparr> = w"
    by (simp add: fun_upd_idem)
  then show ?thesis
    by (auto simp: processAccountEvt_def addToUser_def account_delete_task_def rmIfExists_def
        deleteAccount_def)
qed

text \<open>
  A takedown is ignored; a deletion of an account without repository is a task that succeeds.
\<close>

theorem account_deletion_witness:
  "processAccountEvt \<lparr>acct_did = ''did:plc:bob'', status = OtherStatus ''takendown''\<rparr>
       (new_Recoverer demo_world 0 4) = new_Recoverer demo_world 0 4
   \<and> pending (queues (processAccountEvt \<lparr>acct_did = ''did:plc:bob'', status = Deleted\<rparr>
       (new_Recoverer demo_world 0 4))) = [(''did:plc:bob'', AccountDeleteTask ''did:plc:bob'')]
   \<and> run_task demo_deps ''t'' (AccountDeleteTask ''did:plc:bob'') demo_world
       = (None, demo_world\<lparr>accounts := {''did:plc:alice''}\<rparr>)"
proof -
  have a: "actors demo_world ''did:plc:bob'' = None" by (simp add: demo_world_def)
  have s: "accounts demo_world - {''did:plc:bob''} = {''did:plc:alice''}"
    by (auto simp: demo_world_def)
  have p: "pending (queues (new_Recoverer demo_world 0 4)) = []"
    by (simp add: new_Recoverer_def new_UserQueues_def)
  from account_deletion [of "\<lparr>acct_did = ''did:plc:bob'', status = OtherStatus ''takendown''\<rparr>"
         "new_Recoverer demo_world 0 4" 0 demo_deps "''t''" "''did:plc:bob''" demo_world]
       account_deletion [of "\<lparr>acct_did = ''did:plc:bob'', status = Deleted\<rparr>"
         "new_Recoverer demo_world 0 4" 0 demo_deps "''t''" "''did:plc:bob''" demo_world]
       a s p
  show ?thesis by simp
qed


text \<open>
  C7. A create (update) that \<^verbatim>\<open>parseCommitEvt\<close> prepares is always the result of
  \<^verbatim>\<open>prepareCreate\<close> (\<^verbatim>\<open>prepareUpdate\<close>) on the record decoded from the event's block:
  whatever that helper checks, it checks against the decoded record, although it is called
  with \<^verbatim>\<open>validate: false\<close>, which skips the schema validation. A delete is prepared
  from the account id, the collection and the record key alone; it carries no blob and the
  blob tables ignore it.
\<close>

theorem replay_prepares_from_decoded_record:
  "(parse_op d did' car op = Inr (Some (Create p)) \<longrightarrow>
      action op = OpCreate \<and>
      (\<exists>c recordBytes record' collection rkey.
         op_cid op = Some c \<and> car c = Some recordBytes \<and>
         cborToLexRecord d recordBytes = Inr record' \<and>
         parseDataKey d (path op) = Inr (collection, rkey) \<and>
         prepareCreate d \<lparr>a_did = did', a_collection = collection, a_rkey = rkey,
                          a_record = record', a_validate = False\<rparr> = Inr p))
   \<and> (parse_op d did' car op = Inr (Some (Update p)) \<longrightarrow>
      action op = OpUpdate \<and>
      (\<exists>c recordBytes record' collection rkey.
         op_cid op = Some c \<and> car c = Some recordBytes \<and>
         cborToLexRecord d recordBytes = Inr record' \<and>
         parseDataKey d (path op) = Inr (collection, rkey) \<and>
         prepareUpdate d \<lparr>a_did = did', a_collection = collection, a_rkey = rkey,
                          a_record = record', a_validate = False\<rparr> = Inr p))
   \<and> (action op = OpDelete \<and> parse_op d did' car op = Inr (Some w) \<longrightarrow>
      (\<exists>collection rkey u.
         parseDataKey d (path op) = Inr (collection, rkey) \<and>
         prepareDelete d did' collection rkey = Inr u \<and> w = Delete u) \<and>
      new_blob_cids [w] = [] \<and> upsert_writes now [w] st = st)"
proof (intro conjI impI)
  assume "parse_op d did' car op = Inr (Some (Create p))"
  then show "action op = OpCreate"
    by (auto simp: parse_op_def split: sum.splits prod.splits option.splits if_splits)
next
  assume "parse_op d did' car op = Inr (Some (Create p))"
  then show "\<exists>c recordBytes record' collection rkey.
         op_cid op = Some c \<and> car c = Some recordBytes \<and>
         cborToLexRecord d recordBytes = Inr record' \<and>
         parseDataKey d (path op) = Inr (collection, rkey) \<and>
         prepareCreate d \<lparr>a_did = did', a_collection = collection, a_rkey = rkey,
                          a_record = record', a_validate = False\<rparr> = Inr p"
    by (auto simp: parse_op_def split: sum.splits prod.splits option.splits if_splits)
next
  assume "parse_op d did' car op = Inr (Some (Update p))"
  then show "action op = OpUpdate"
    by (cases "action op")
       (auto simp: parse_op_def split: sum.splits prod.splits option.splits if_splits)
next
  assume "parse_op d did' car op = Inr (Some (Update p))"
  then show "\<exists>c recordBytes record' collection rkey.
         op_cid op = Some c \<and> car c = Some recordBytes \<and>
         cborToLexRecord d recordBytes = Inr record' \<and>
         parseDataKey d (path op) = Inr (collection, rkey) \<and>
         prepareUpdate d \<lparr>a_did = did', a_collection = collection, a_rkey = rkey,
                          a_record = record', a_validate = False\<rparr> = Inr p"
    by (auto simp: parse_op_def split: sum.splits prod.splits option.splits if_splits)
next
  assume h: "action op = OpDelete \<and> parse_op d did' car op = Inr (Some w)"
  then show u: "\<exists>collection rkey u.
         parseDataKey d (path op) = Inr (collection, rkey) \<and>
         prepareDelete d did' collection rkey = Inr u \<and> w = Delete u"
    by (auto simp: parse_op_def split: sum.splits prod.splits)
  from u show "new_blob_cids [w] = []" by auto
  from u show "upsert_writes now [w] st = st" by (auto simp: upsert_writes_def)
qed

text \<open>
  An operation whose record is empty, which the sample helpers would hold invalid if asked
  to validate.
\<close>

theorem replay_prepares_from_decoded_record_witness:
  "parse_op demo_deps ''did:plc:alice'' demo_car invalid_op
     = Inr (Some (Create \<lparr>p_uri = ''at://did:plc:alice/app.bsky.feed.post/k0'',
                          p_cid = ''bafyrecord'', p_record = [], p_blobs = []\<rparr>))
   \<and> action invalid_op = OpCreate
   \<and> prepareCreate demo_deps
        \<lparr>a_did = ''did:plc:alice'', a_collection = ''app.bsky.feed.post'', a_rkey = ''k0'',
         a_record = [], a_validate = False\<rparr>
       = Inr \<lparr>p_uri = ''at://did:plc:alice/app.bsky.feed.post/k0'',
                          p_cid = ''bafyrecord'', p_record = [], p_blobs = []\<rparr>"
proof -
  have p: "parse_op demo_deps ''did:plc:alice'' demo_car invalid_op
     = Inr (Some (Create \<lparr>p_uri = ''at://did:plc:alice/app.bsky.feed.post/k0'',
                          p_cid = ''bafyrecord'', p_record = [], p_blobs = []\<rparr>))"
    by (simp add: parse_op_def demo_deps_def invalid_op_def demo_parseDataKey_def
        demo_prepare_def demo_car_def)
  have k: "parseDataKey demo_deps (path invalid_op) = Inr (''app.bsky.feed.post'', ''k0'')"
    by (simp add: demo_deps_def invalid_op_def demo_parseDataKey_def)
  have c: "op_cid invalid_op = Some ''bafy0''" "demo_car ''bafy0'' = Some []"
    "cborToLexRecord demo_deps [] = Inr []"
    by (simp_all add: invalid_op_def demo_car_def demo_deps_def)
  from replay_prepares_from_decoded_record
         [of demo_deps "''did:plc:alice''" demo_car invalid_op
             "\<lparr>p_uri = ''at://did:plc:alice/app.bsky.feed.post/k0'',
               p_cid = ''bafyrecord'', p_record = [], p_blobs = []\<rparr>"] p k c
  show ?thesis by auto
qed


section \<open>Properties of the orchestrator\<close>


lemma processEvent_eq:
  "processEvent evt r = r\<lparr>queues := (queues r)\<lparr>pending := pending (queues r) @ dispatched_tasks evt\<rparr>\<rparr>"
  by (cases "typed evt") (simp_all add: processCommit_def processAccountEvt_def addToUser_def)

lemma dispatch_page_eq:
  "dispatch_page page r =
     r\<lparr>queues := (queues r)\<lparr>pending := pending (queues r) @ concat (map dispatched_tasks page)\<rparr>\<rparr>"
  unfolding dispatch_page_def
proof (induction page arbitrary: r)
  case Nil
  show ?case by simp
next
  case (Cons e es)
  have "fold processEvent (e # es) r = fold processEvent es (processEvent e r)"
    by simp
  also have "\<dots> = (processEvent e r)\<lparr>queues := (queues (processEvent e r))
      \<lparr>pending := pending (queues (processEvent e r)) @ concat (map dispatched_tasks es)\<rparr>\<rparr>"
    by (rule Cons.IH)
  also have "\<dots> = r\<lparr>queues := (queues r)
      \<lparr>pending := pending (queues r) @ concat (map dispatched_tasks (e # es))\<rparr>\<rparr>"
    unfolding processEvent_eq by simp
  finally show ?case .
qed

lemma cursor_run_next: "cursor (run_next d r) = cursor r"
  by (simp add: run_next_def split: list.splits prod.splits)

lemma cursor_run_n: "cursor ((run_next d ^^ n) r) = cursor r"
  by (induction n) (simp_all add: cursor_run_next)

lemma pending_run_next: "pending (queues (run_next d r)) = tl (pending (queues r))"
  by (simp add: run_next_def split: list.splits prod.splits)

lemma pending_run_n: "pending (queues ((run_next d ^^ n) r)) = drop n (pending (queues r))"
  by (induction n) (simp_all add: pending_run_next drop_Suc tl_drop)

lemma cursor_onEmpty: "cursor (onEmpty d r) = cursor r"
  by (simp add: onEmpty_def cursor_run_n)

lemma pending_onEmpty: "length (pending (queues (onEmpty d r))) \<le> low_water d"
  by (simp add: onEmpty_def pending_run_n)

lemma loadNextPage_empty:
  "requestSeqRange d (cursor r) 5000 = [] \<Longrightarrow> loadNextPage d r = (True, r)"
  by (simp add: loadNextPage_def dispatch_page_def)

lemma loadNextPage_nonempty:
  "requestSeqRange d (cursor r) 5000 = page \<Longrightarrow> page \<noteq> [] \<Longrightarrow>
   loadNextPage d r = (False, (dispatch_page page r)\<lparr>cursor := seq (last page)\<rparr>)"
  by (cases page) (simp_all add: loadNextPage_def)

text \<open>
  C8. A recoverer is built from a start cursor and a concurrency limit, and its cursor can
  be read. Dispatching a page appends the tasks of all its events to the queue, in order,
  and touches neither the cursor nor the stores. \<^verbatim>\<open>loadNextPage\<close> on an empty page returns
  \<^verbatim>\<open>true\<close> and changes nothing; on a page with events it returns \<^verbatim>\<open>false\<close> with the whole
  page dispatched and the cursor at the sequence number of the last event.
\<close>

theorem cursor_advances_after_dispatch:
  "cursor (new_Recoverer c k n) = k
   \<and> concurrency (queues (new_Recoverer c k n)) = n
   \<and> pending (queues (new_Recoverer c k n)) = []
   \<and> cursor (dispatch_page page r) = cursor r
   \<and> ctx (dispatch_page page r) = ctx r
   \<and> pending (queues (dispatch_page page r)) = pending (queues r) @ concat (map dispatched_tasks page)
   \<and> (requestSeqRange d (cursor r) 5000 = [] \<longrightarrow> loadNextPage d r = (True, r))
   \<and> (requestSeqRange d (cursor r) 5000 = page \<and> page \<noteq> [] \<longrightarrow>
        loadNextPage d r = (False, (dispatch_page page r)\<lparr>cursor := seq (last page)\<rparr>))"
proof (intro conjI impI)
  show "pending (queues (dispatch_page page r)) = pending (queues r) @ concat (map dispatched_tasks page)"
    by (simp add: dispatch_page_eq)
  show "cursor (dispatch_page page r) = cursor r" by (simp add: dispatch_page_eq)
  show "ctx (dispatch_page page r) = ctx r" by (simp add: dispatch_page_eq)
next
  assume "requestSeqRange d (cursor r) 5000 = []"
  then show "loadNextPage d r = (True, r)" by (rule loadNextPage_empty)
next
  assume "requestSeqRange d (cursor r) 5000 = page \<and> page \<noteq> []"
  then show "loadNextPage d r = (False, (dispatch_page page r)\<lparr>cursor := seq (last page)\<rparr>)"
    by (simp add: loadNextPage_nonempty)
qed (simp_all add: new_Recoverer_def new_UserQueues_def)

lemma run_loop_returns:
  "run_loop d r = Some r' \<Longrightarrow> requestSeqRange d (cursor r') 5000 = []"
proof (induction d r r' rule: run_loop.raw_induct [rotated, consumes 1])
  case (1 run_loop' d r r')
  show ?case
  proof (cases "requestSeqRange d (cursor r) 5000 = []")
    case True
    with 1(2) have "r' = onEmpty d r" by (simp add: loadNextPage_empty)
    with True show ?thesis by (simp add: cursor_onEmpty)
  next
    case False
    with 1(2) have "run_loop' d (onEmpty d ((dispatch_page (requestSeqRange d (cursor r) 5000) r)
            \<lparr>cursor := seq (last (requestSeqRange d (cursor r) 5000))\<rparr>)) = Some r'"
      by (simp add: loadNextPage_nonempty [OF refl])
    then show ?thesis by (rule 1(1))
  qed
qed

lemma run_next_Nil: "pending (queues r) = [] \<Longrightarrow> run_next d r = r"
  by (simp add: run_next_def)

lemma run_n_Nil: "pending (queues r) = [] \<Longrightarrow> (run_next d ^^ n) r = r"
  by (induction n) (simp_all add: run_next_Nil)

lemma run_next_cursor: "run_next d (r\<lparr>cursor := c\<rparr>) = (run_next d r)\<lparr>cursor := c\<rparr>"
  by (simp add: run_next_def split: list.splits prod.splits)

lemma run_n_cursor: "(run_next d ^^ n) (r\<lparr>cursor := c\<rparr>) = ((run_next d ^^ n) r)\<lparr>cursor := c\<rparr>"
  by (induction n) (simp_all add: run_next_cursor)

lemma run_n_exec:
  "n \<le> length (pending (queues r)) \<Longrightarrow>
   (run_next d ^^ n) r =
     (case exec_tasks d (started (queues r)) (take n (pending (queues r))) (ctx r) of
        (es, w') \<Rightarrow>
          r\<lparr>ctx := w',
            queues := (queues r)
              \<lparr>pending := drop n (pending (queues r)),
               started := started (queues r) + n,
               failed := failed (queues r) @ es\<rparr>\<rparr>)"
proof (induction n arbitrary: r)
  case 0
  show ?case by simp
next
  case (Suc n)
  from Suc.prems obtain key t rest where p: "pending (queues r) = (key, t) # rest"
    by (cases "pending (queues r)") auto
  obtain err w1 where t: "run_task d (clock d (started (queues r))) t (ctx r) = (err, w1)"
    by (cases "run_task d (clock d (started (queues r))) t (ctx r)")
  define r1 where "r1 = run_next d r"
  have r1: "r1 = r\<lparr>ctx := w1,
                 queues := (queues r)
                   \<lparr>pending := rest,
                    started := Suc (started (queues r)),
                    failed := failed (queues r) @ (case err of None \<Rightarrow> [] | Some e \<Rightarrow> [(key, e)])\<rparr>\<rparr>"
    by (simp add: r1_def run_next_def p t)
  have n: "n \<le> length (pending (queues r1))" using Suc.prems by (simp add: r1 p)
  have "(run_next d ^^ Suc n) r = (run_next d ^^ n) r1"
    by (simp add: r1_def funpow_swap1)
  also note Suc.IH [OF n]
  finally show ?case
    by (simp add: r1 p t split: prod.splits)
qed

lemma processAll_run_n: "processAll d ((run_next d ^^ n) r) = processAll d r"
proof (cases "n \<le> length (pending (queues r))")
  case True
  have "(run_next d ^^ ((length (pending (queues r)) - n) + n)) r
      = (run_next d ^^ (length (pending (queues r)) - n)) ((run_next d ^^ n) r)"
    by (simp only: funpow_add comp_def)
  with True have "(run_next d ^^ (length (pending (queues r)) - n)) ((run_next d ^^ n) r)
      = (run_next d ^^ length (pending (queues r))) r"
    by simp
  then show ?thesis by (simp add: processAll_def pending_run_n)
next
  case False
  define m where "m = length (pending (queues r))"
  from False have n: "n = (n - m) + m" by (simp add: m_def)
  have e: "pending (queues ((run_next d ^^ m) r)) = []" by (simp add: m_def pending_run_n)
  have "(run_next d ^^ n) r = (run_next d ^^ (n - m)) ((run_next d ^^ m) r)"
    by (subst n) (simp only: funpow_add comp_def)
  also have "\<dots> = (run_next d ^^ m) r" by (rule run_n_Nil [OF e])
  finally have "(run_next d ^^ n) r = (run_next d ^^ m) r" .
  then show ?thesis by (simp add: processAll_def e) (simp add: m_def)
qed

lemma run_n_dispatch_page:
  "n \<le> length (pending (queues r)) \<Longrightarrow>
   (run_next d ^^ n) (dispatch_page page r) = dispatch_page page ((run_next d ^^ n) r)"
  by (simp add: run_n_exec dispatch_page_eq split: prod.splits)

lemma processAll_onEmpty_dispatch:
  "processAll d ((dispatch_page evts (onEmpty d r))\<lparr>cursor := c\<rparr>)
     = processAll d ((dispatch_page evts r)\<lparr>cursor := c\<rparr>)"
  unfolding onEmpty_def
  by (simp add: run_n_dispatch_page [symmetric] run_n_cursor [symmetric] processAll_run_n)

lemma processAll_flushed:
  "processAll d ((dispatch_page evts r)\<lparr>cursor := c\<rparr>) = flushed d r evts c"
proof -
  let ?r = "(dispatch_page evts r)\<lparr>cursor := c\<rparr>"
  have "(run_next d ^^ length (pending (queues ?r))) ?r = snd (flushed d r evts c)"
    by (subst run_n_exec) (simp_all add: dispatch_page_eq flushed_def Let_def split: prod.splits)
  then show ?thesis
    by (simp add: processAll_def Let_def) (simp add: flushed_def Let_def split: prod.splits)
qed

lemma fetched_ends: "fetched d c evts c' \<Longrightarrow> requestSeqRange d c' 5000 = []"
  by (induction rule: fetched.induct) simp_all

lemma run_loop_fetched:
  "run_loop d r = Some r' \<Longrightarrow> \<exists>evts. fetched d (cursor r) evts (cursor r')"
proof (induction d r r' rule: run_loop.raw_induct [rotated, consumes 1])
  case (1 run_loop' d r r')
  show ?case
  proof (cases "requestSeqRange d (cursor r) 5000 = []")
    case True
    with 1(2) have "r' = onEmpty d r" by (simp add: loadNextPage_empty)
    with True show ?thesis by (auto simp: cursor_onEmpty intro: end_of_log)
  next
    case False
    let ?page = "requestSeqRange d (cursor r) 5000"
    let ?r2 = "onEmpty d ((dispatch_page ?page r)\<lparr>cursor := seq (last ?page)\<rparr>)"
    from False 1(2) have "run_loop' d ?r2 = Some r'"
      by (simp add: loadNextPage_nonempty [OF refl])
    then have "\<exists>evts. fetched d (cursor ?r2) evts (cursor r')" by (rule 1(1))
    then obtain evts where "fetched d (seq (last ?page)) evts (cursor r')"
      by (auto simp: cursor_onEmpty)
    with False have "fetched d (cursor r) (?page @ evts) (cursor r')"
      by (intro next_page) simp_all
    then show ?thesis by blast
  qed
qed

lemma fetched_run_loop:
  "fetched d c evts c' \<Longrightarrow> cursor r = c \<Longrightarrow>
   \<exists>r1. run_loop d r = Some r1 \<and> cursor r1 = c'
        \<and> processAll d r1 = processAll d ((dispatch_page evts r)\<lparr>cursor := c'\<rparr>)"
proof (induction arbitrary: r rule: fetched.induct)
  case (end_of_log d c)
  then have "run_loop d r = Some (onEmpty d r)"
    by (simp add: run_loop.simps [of d r] loadNextPage_empty)
  moreover from end_of_log have "r\<lparr>cursor := c\<rparr> = r" by (cases r) simp
  then have "processAll d (onEmpty d r) = processAll d ((dispatch_page [] r)\<lparr>cursor := c\<rparr>)"
    by (simp add: onEmpty_def processAll_run_n dispatch_page_def)
  ultimately show ?case using end_of_log by (simp add: cursor_onEmpty)
next
  case (next_page d c page evts c')
  let ?rp = "(dispatch_page page r)\<lparr>cursor := seq (last page)\<rparr>"
  from next_page have l: "run_loop d r = run_loop d (onEmpty d ?rp)"
    by (simp add: run_loop.simps [of d r] loadNextPage_nonempty)
  have "cursor (onEmpty d ?rp) = seq (last page)" by (simp add: cursor_onEmpty)
  from next_page.IH [OF this] obtain r1 where r1: "run_loop d (onEmpty d ?rp) = Some r1"
    "cursor r1 = c'"
    "processAll d r1 = processAll d ((dispatch_page evts (onEmpty d ?rp))\<lparr>cursor := c'\<rparr>)"
    by blast
  have "(dispatch_page evts ?rp)\<lparr>cursor := c'\<rparr> = (dispatch_page (page @ evts) r)\<lparr>cursor := c'\<rparr>"
    by (simp add: dispatch_page_eq)
  with r1(3) have "processAll d r1 = processAll d ((dispatch_page (page @ evts) r)\<lparr>cursor := c'\<rparr>)"
    by (simp add: processAll_onEmpty_dispatch)
  with l r1 show ?case by simp
qed

lemma run_flushed:
  "run d r = Some res \<longleftrightarrow> (\<exists>evts c'. fetched d (cursor r) evts c' \<and> res = flushed d r evts c')"
proof
  assume "run d r = Some res"
  then obtain r1 where r1: "run_loop d r = Some r1" and res: "res = processAll d r1"
    by (auto simp: run_def)
  from run_loop_fetched [OF r1] obtain evts where f: "fetched d (cursor r) evts (cursor r1)"
    by blast
  from fetched_run_loop [OF f refl] r1
  have "processAll d r1 = flushed d r evts (cursor r1)"
    by (auto simp: processAll_flushed)
  with f res show "\<exists>evts c'. fetched d (cursor r) evts c' \<and> res = flushed d r evts c'"
    by blast
next
  assume "\<exists>evts c'. fetched d (cursor r) evts c' \<and> res = flushed d r evts c'"
  then obtain evts c' where f: "fetched d (cursor r) evts c'" and res: "res = flushed d r evts c'"
    by blast
  from fetched_run_loop [OF f refl] res show "run d r = Some res"
    by (auto simp: run_def processAll_flushed)
qed

text \<open>
  C9. \<^verbatim>\<open>run\<close> returns exactly when the pages fetched from its cursor on, each at the
  sequence number of the last event of the page before, come to an empty page; the loop
  ends in the iteration that fetches the empty page and goes on after a page with events.
  What \<^verbatim>\<open>run\<close> returns is then the flushed queue: every task that was in the queue and
  every task of the fetched events has run, in order, each on the stores as the task
  before it left them; no task is left; the errors thrown are kept with their keys and the
  first of them is the error of the run; the cursor is the one of the empty page.
\<close>

theorem run_terminates_on_empty_page:
  "(requestSeqRange d (cursor r) 5000 = [] \<longrightarrow> run d r = Some (processAll d (onEmpty d r)))
   \<and> (requestSeqRange d (cursor r) 5000 = page \<and> page \<noteq> [] \<longrightarrow>
        run d r = run d (onEmpty d ((dispatch_page page r)\<lparr>cursor := seq (last page)\<rparr>)))
   \<and> (run d r = Some res \<longleftrightarrow>
        (\<exists>evts c'. fetched d (cursor r) evts c' \<and> res = flushed d r evts c'))
   \<and> (run d r = Some (err, r') \<longrightarrow>
        requestSeqRange d (cursor r') 5000 = [] \<and> pending (queues r') = [])"
proof (intro conjI impI)
  assume "requestSeqRange d (cursor r) 5000 = []"
  then show "run d r = Some (processAll d (onEmpty d r))"
    by (simp add: run_def run_loop.simps [of d r] loadNextPage_empty)
next
  assume "requestSeqRange d (cursor r) 5000 = page \<and> page \<noteq> []"
  then show "run d r = run d (onEmpty d ((dispatch_page page r)\<lparr>cursor := seq (last page)\<rparr>))"
    by (simp add: run_def run_loop.simps [of d r] loadNextPage_nonempty)
next
  show "run d r = Some res \<longleftrightarrow>
        (\<exists>evts c'. fetched d (cursor r) evts c' \<and> res = flushed d r evts c')"
    by (rule run_flushed)
next
  assume h: "run d r = Some (err, r')"
  then obtain evts c' where f: "fetched d (cursor r) evts c'"
    and res: "(err, r') = flushed d r evts c'"
    unfolding run_flushed by blast
  from res have c: "cursor r' = c'" and p: "pending (queues r') = []"
    by (auto simp: flushed_def Let_def split: prod.splits)
  from fetched_ends [OF f] c show "requestSeqRange d (cursor r') 5000 = []" by simp
  from p show "pending (queues r') = []" .
qed

lemma demo_first_page: "requestSeqRange demo_deps 0 5000 = demo_log"
  by (simp add: demo_deps_def demo_log_def)

lemma demo_last_page: "requestSeqRange demo_deps 3 5000 = []"
  by (simp add: demo_deps_def demo_log_def)

lemma demo_log_last: "demo_log \<noteq> [] \<and> seq (last demo_log) = 3"
  by (simp add: demo_log_def)

text \<open>
  The sample log from cursor 0, and the empty page from cursor 3.
\<close>

theorem cursor_advances_after_dispatch_witness:
  "cursor (new_Recoverer demo_world 0 4) = 0
   \<and> loadNextPage demo_deps (new_Recoverer demo_world 0 4)
       = (False, (dispatch_page demo_log (new_Recoverer demo_world 0 4))\<lparr>cursor := 3\<rparr>)
   \<and> pending (queues (dispatch_page demo_log (new_Recoverer demo_world 0 4)))
       = [(''did:plc:alice'', CommitTask demo_evt), (''did:plc:bob'', AccountDeleteTask ''did:plc:bob'')]
   \<and> loadNextPage demo_deps ((new_Recoverer demo_world 0 4)\<lparr>cursor := 3\<rparr>)
       = (True, (new_Recoverer demo_world 0 4)\<lparr>cursor := 3\<rparr>)"
proof -
  have t: "concat (map dispatched_tasks demo_log)
       = [(''did:plc:alice'', CommitTask demo_evt), (''did:plc:bob'', AccountDeleteTask ''did:plc:bob'')]"
    by (simp add: demo_log_def) (simp add: demo_evt_def)
  have c: "cursor (new_Recoverer demo_world 0 4) = 0" by (simp add: new_Recoverer_def)
  from cursor_advances_after_dispatch
         [of demo_world 0 4 demo_log "new_Recoverer demo_world 0 4" demo_deps]
       cursor_advances_after_dispatch
         [of demo_world 0 4 demo_log "(new_Recoverer demo_world 0 4)\<lparr>cursor := 3\<rparr>" demo_deps]
       demo_first_page demo_last_page demo_log_last t c
  show ?thesis by simp
qed

lemma demo_fetched: "fetched demo_deps 0 demo_log 3"
proof -
  have e: "fetched demo_deps 3 [] 3"
    by (rule end_of_log) (rule demo_last_page)
  have "fetched demo_deps 0 (demo_log @ []) 3"
    by (rule next_page [OF demo_first_page]) (simp_all add: demo_log_last e)
  then show ?thesis by simp
qed

lemma embedding_fetched: "fetched embedding_deps 0 demo_log 3"
proof -
  have e: "fetched embedding_deps 3 [] 3"
    by (rule end_of_log) (simp add: embedding_deps_def demo_deps_def demo_log_def)
  have p: "requestSeqRange embedding_deps 0 5000 = demo_log"
    by (simp add: embedding_deps_def demo_deps_def demo_log_def)
  have "fetched embedding_deps 0 (demo_log @ []) 3"
    by (rule next_page [OF p]) (simp_all add: demo_log_last e)
  then show ?thesis by simp
qed

text \<open>
  On the sample log \<^verbatim>\<open>run\<close> returns after two fetches, at cursor 3: both tasks have run, the
  repository of the first account is created at the revision of its event and the second
  account is deleted. With the variant whose blob processing throws, the run returns the
  error of the first task with its key, and the second task has run all the same.
\<close>

theorem run_terminates_on_empty_page_witness:
  "run demo_deps (new_Recoverer demo_world 0 4)
     = Some (flushed demo_deps (new_Recoverer demo_world 0 4) demo_log 3)
   \<and> fst (flushed demo_deps (new_Recoverer demo_world 0 4) demo_log 3) = None
   \<and> cursor (snd (flushed demo_deps (new_Recoverer demo_world 0 4) demo_log 3)) = 3
   \<and> queues (snd (flushed demo_deps (new_Recoverer demo_world 0 4) demo_log 3))
       = \<lparr>concurrency = 4, pending = [], started = 2, failed = []\<rparr>
   \<and> accounts (ctx (snd (flushed demo_deps (new_Recoverer demo_world 0 4) demo_log 3)))
       = {''did:plc:alice''}
   \<and> map_option root
       (actors (ctx (snd (flushed demo_deps (new_Recoverer demo_world 0 4) demo_log 3))) ''did:plc:alice'')
       = Some (Some (''bafycommit1'', ''3kaaa''))
   \<and> run embedding_deps (new_Recoverer demo_world 0 4)
       = Some (flushed embedding_deps (new_Recoverer demo_world 0 4) demo_log 3)
   \<and> fst (flushed embedding_deps (new_Recoverer demo_world 0 4) demo_log 3)
       = Some (''did:plc:alice'', HelperError ''Could not find blob'')
   \<and> queues (snd (flushed embedding_deps (new_Recoverer demo_world 0 4) demo_log 3))
       = \<lparr>concurrency = 4, pending = [], started = 2,
          failed = [(''did:plc:alice'', HelperError ''Could not find blob'')]\<rparr>
   \<and> accounts (ctx (snd (flushed embedding_deps (new_Recoverer demo_world 0 4) demo_log 3)))
       = {''did:plc:alice''}
   \<and> run demo_deps (new_Recoverer demo_world 0 4)
       = run demo_deps (onEmpty demo_deps ((dispatch_page demo_log (new_Recoverer demo_world 0 4))\<lparr>cursor := 3\<rparr>))
   \<and> run demo_deps ((new_Recoverer demo_world 0 4)\<lparr>cursor := 3\<rparr>)
       = Some (processAll demo_deps (onEmpty demo_deps ((new_Recoverer demo_world 0 4)\<lparr>cursor := 3\<rparr>)))"
proof -
  define r0 where "r0 = new_Recoverer demo_world 0 4"
  have c0: "cursor r0 = 0" by (simp add: r0_def new_Recoverer_def)
  have t: "concat (map dispatched_tasks demo_log)
       = [(''did:plc:alice'', CommitTask demo_evt), (''did:plc:bob'', AccountDeleteTask ''did:plc:bob'')]"
    by (simp add: demo_log_def) (simp add: demo_evt_def)
  have g: "commit_task demo_deps now demo_evt demo_world =
     (None, demo_world\<lparr>keys_made := 1,
        actors := [''did:plc:alice'' \<mapsto>
          \<lparr>signing_key = 0, root = Some (''bafycommit1'', ''3kaaa''), repo_block = demo_car,
           record_index = record_index (indexWrites
              [Create \<lparr>p_uri = ''at://did:plc:alice/app.bsky.feed.post/k1'', p_cid = ''bafyrecord'',
                      p_record = [1, 2, 3] :: bytes, p_blobs = []\<rparr>] ''3kaaa'' (empty_store 0)),
           record_blob = [], blob = []\<rparr>]\<rparr>)" for now
    by (simp add: commit_task_def demo_parse_evt Let_def processRepoCreation_def actor_exists_def
        actor_create_def transact_def genesis_txn_empty_store)
       (simp add: demo_evt_def demo_world_def demo_deps_def demo_processWriteBlobs_def)
  have f: "flushed demo_deps r0 demo_log 3 =
     (None, \<lparr>ctx = deleteAccount ''did:plc:bob'' (rmIfExists ''did:plc:bob''
                (snd (commit_task demo_deps ''t'' demo_evt demo_world))),
             cursor = 3,
             queues = \<lparr>concurrency = 4, pending = [], started = 2, failed = []\<rparr>\<rparr>)"
    by (simp add: flushed_def t r0_def new_Recoverer_def new_UserQueues_def g
        account_delete_task_def)
  have ge: "commit_task embedding_deps now demo_evt demo_world =
     (Some (HelperError ''Could not find blob''),
      demo_world\<lparr>keys_made := 1, actors := [''did:plc:alice'' \<mapsto> empty_store 0]\<rparr>)" for now
    by (simp add: commit_task_def embedding_parse_evt Let_def processRepoCreation_def
        actor_exists_def actor_create_def transact_def genesis_txn_empty_store)
       (simp add: demo_evt_def demo_world_def embedding_deps_def demo_deps_def
        demo_processWriteBlobs_def)
  have fe: "flushed embedding_deps r0 demo_log 3 =
     (Some (''did:plc:alice'', HelperError ''Could not find blob''),
      \<lparr>ctx = deleteAccount ''did:plc:bob'' (rmIfExists ''did:plc:bob''
                (snd (commit_task embedding_deps ''t'' demo_evt demo_world))),
       cursor = 3,
       queues = \<lparr>concurrency = 4, pending = [], started = 2,
                  failed = [(''did:plc:alice'', HelperError ''Could not find blob'')]\<rparr>\<rparr>)"
    by (simp add: flushed_def t r0_def new_Recoverer_def new_UserQueues_def ge
        account_delete_task_def)
  from run_terminates_on_empty_page
         [of demo_deps r0 _ "flushed demo_deps r0 demo_log 3"] demo_fetched c0
  have r: "run demo_deps r0 = Some (flushed demo_deps r0 demo_log 3)" by auto
  from run_terminates_on_empty_page
         [of embedding_deps r0 _ "flushed embedding_deps r0 demo_log 3"] embedding_fetched c0
  have re: "run embedding_deps r0 = Some (flushed embedding_deps r0 demo_log 3)" by auto
  have a: "accounts (ctx (snd (flushed demo_deps r0 demo_log 3))) = {''did:plc:alice''}"
    "map_option root (actors (ctx (snd (flushed demo_deps r0 demo_log 3))) ''did:plc:alice'')
       = Some (Some (''bafycommit1'', ''3kaaa''))"
    "accounts (ctx (snd (flushed embedding_deps r0 demo_log 3))) = {''did:plc:alice''}"
    unfolding f fe
    by (simp_all add: g ge deleteAccount_def rmIfExists_def) (auto simp: demo_world_def)
  from run_terminates_on_empty_page [of demo_deps r0 demo_log] demo_first_page demo_log_last c0
  have n: "run demo_deps r0
      = run demo_deps (onEmpty demo_deps ((dispatch_page demo_log r0)\<lparr>cursor := 3\<rparr>))"
    by simp
  from run_terminates_on_empty_page [of demo_deps "r0\<lparr>cursor := 3\<rparr>"] demo_last_page
  have l: "run demo_deps (r0\<lparr>cursor := 3\<rparr>)
      = Some (processAll demo_deps (onEmpty demo_deps (r0\<lparr>cursor := 3\<rparr>)))"
    by simp
  from r re a n l show ?thesis
    unfolding r0_def [symmetric] by (simp add: f fe)
qed


section \<open>Properties of trackBlobs\<close>


lemma upsert_refs_simps:
  "upsert_refs now [] st = st"
  "upsert_refs now (ref # refs) st = upsert_refs now refs (upsert_blob now (fst ref) (snd ref) st)"
  "upsert_refs now (xs @ ys) st = upsert_refs now ys (upsert_refs now xs st)"
  by (simp_all add: upsert_refs_def)

lemma fold_upsert_refs:
  "fold (upsert_blob now u) bs st = upsert_refs now (map (Pair u) bs) st"
  by (induction bs arbitrary: st) (simp_all add: upsert_refs_simps)

lemma upsert_writes_refs: "upsert_writes now writes st = upsert_refs now (write_blob_refs writes) st"
proof (induction writes arbitrary: st)
  case Nil
  show ?case by (simp add: upsert_writes_def upsert_refs_simps)
next
  case (Cons w ws)
  have step: "upsert_writes now (w # ws) st = upsert_writes now ws (track_write now w st)"
    by (simp add: upsert_writes_def)
  show ?case
    unfolding step Cons.IH
    by (cases w) (simp_all add: upsert_refs_simps fold_upsert_refs)
qed

lemma new_blob_cids_refs: "new_blob_cids writes = map (\<lambda>ref. b_cid (snd ref)) (write_blob_refs writes)"
  by (induction writes rule: new_blob_cids.induct) (simp_all add: comp_def)

lemma set_insert_record_blob: "set (insert_record_blob row tbl) = insert row (set tbl)"
  by (auto simp: insert_record_blob_def)

lemma distinct_insert_record_blob: "distinct tbl \<Longrightarrow> distinct (insert_record_blob row tbl)"
  by (simp add: insert_record_blob_def)

lemma cids_insert_blob: "r_cid ` set (insert_blob row tbl) = insert (r_cid row) (r_cid ` set tbl)"
  by (auto simp: insert_blob_def)

lemma distinct_insert_blob: "distinct (map r_cid tbl) \<Longrightarrow> distinct (map r_cid (insert_blob row tbl))"
  by (simp add: insert_blob_def)

lemma insert_blob_present: "r_cid row \<in> r_cid ` set tbl \<Longrightarrow> insert_blob row tbl = tbl"
  by (simp add: insert_blob_def)

lemma insert_record_blob_present: "row \<in> set tbl \<Longrightarrow> insert_record_blob row tbl = tbl"
  by (simp add: insert_record_blob_def)

lemma set_record_blob_upsert_refs:
  "set (record_blob (upsert_refs now refs st))
     = set (record_blob st) \<union> (\<lambda>ref. (b_cid (snd ref), fst ref)) ` set refs"
  by (induction refs arbitrary: st)
     (auto simp: upsert_refs_simps upsert_blob_def set_insert_record_blob)

lemma cids_blob_upsert_refs:
  "r_cid ` set (blob (upsert_refs now refs st))
     = r_cid ` set (blob st) \<union> (\<lambda>ref. b_cid (snd ref)) ` set refs"
proof (induction refs arbitrary: st)
  case Nil
  show ?case by (simp add: upsert_refs_simps)
next
  case (Cons ref refs)
  have "r_cid ` set (blob (upsert_blob now (fst ref) (snd ref) st))
      = insert (b_cid (snd ref)) (r_cid ` set (blob st))"
    by (simp add: upsert_blob_def cids_insert_blob)
  then show ?case
    by (simp add: upsert_refs_simps Cons.IH)
qed

lemma distinct_upsert_refs:
  "distinct (record_blob st) \<Longrightarrow> distinct (map r_cid (blob st)) \<Longrightarrow>
   distinct (record_blob (upsert_refs now refs st)) \<and> distinct (map r_cid (blob (upsert_refs now refs st)))"
proof (induction refs arbitrary: st)
  case Nil
  then show ?case by (simp add: upsert_refs_simps)
next
  case (Cons ref refs)
  have "distinct (record_blob (upsert_blob now (fst ref) (snd ref) st))"
    and "distinct (map r_cid (blob (upsert_blob now (fst ref) (snd ref) st)))"
    using Cons.prems by (simp_all add: upsert_blob_def distinct_insert_record_blob distinct_insert_blob)
  then show ?case
    unfolding upsert_refs_simps by (rule Cons.IH)
qed

lemma blob_upsert_refs_present:
  "(\<lambda>ref. b_cid (snd ref)) ` set refs \<subseteq> r_cid ` set (blob st) \<Longrightarrow>
   blob (upsert_refs now refs st) = blob st"
proof (induction refs arbitrary: st)
  case Nil
  show ?case by (simp add: upsert_refs_simps)
next
  case (Cons ref refs)
  from Cons.prems have b: "blob (upsert_blob now (fst ref) (snd ref) st) = blob st"
    by (simp add: upsert_blob_def insert_blob_present)
  with Cons.prems have "blob (upsert_refs now refs (upsert_blob now (fst ref) (snd ref) st))
      = blob (upsert_blob now (fst ref) (snd ref) st)"
    by (intro Cons.IH) simp
  with b show ?case by (simp add: upsert_refs_simps)
qed

lemma record_blob_upsert_refs_present:
  "(\<lambda>ref. (b_cid (snd ref), fst ref)) ` set refs \<subseteq> set (record_blob st) \<Longrightarrow>
   record_blob (upsert_refs now refs st) = record_blob st"
proof (induction refs arbitrary: st)
  case Nil
  show ?case by (simp add: upsert_refs_simps)
next
  case (Cons ref refs)
  from Cons.prems have b: "record_blob (upsert_blob now (fst ref) (snd ref) st) = record_blob st"
    by (simp add: upsert_blob_def insert_record_blob_present)
  with Cons.prems have "record_blob (upsert_refs now refs (upsert_blob now (fst ref) (snd ref) st))
      = record_blob (upsert_blob now (fst ref) (snd ref) st)"
    by (intro Cons.IH) simp
  with b show ?case by (simp add: upsert_refs_simps)
qed

lemma upsert_refs_others:
  "signing_key (upsert_refs now refs st) = signing_key st
   \<and> root (upsert_refs now refs st) = root st
   \<and> repo_block (upsert_refs now refs st) = repo_block st
   \<and> record_index (upsert_refs now refs st) = record_index st"
  by (induction refs arbitrary: st) (simp_all add: upsert_refs_simps upsert_blob_def)

lemma upsert_refs_present:
  assumes "(\<lambda>ref. (b_cid (snd ref), fst ref)) ` set refs \<subseteq> set (record_blob st)"
    and "(\<lambda>ref. b_cid (snd ref)) ` set refs \<subseteq> r_cid ` set (blob st)"
  shows "upsert_refs now refs st = st"
  by (rule actor_store.equality)
     (simp_all add: upsert_refs_others record_blob_upsert_refs_present [OF assms(1)]
        blob_upsert_refs_present [OF assms(2)])

lemma upsert_refs_twice: "upsert_refs now' refs (upsert_refs now refs st) = upsert_refs now refs st"
  by (rule upsert_refs_present)
     (simp_all add: set_record_blob_upsert_refs cids_blob_upsert_refs)

lemma upsert_refs_grows:
  "(\<exists>rows. record_blob (upsert_refs now refs st) = record_blob st @ rows)
   \<and> (\<exists>rows. blob (upsert_refs now refs st) = blob st @ rows)"
proof (induction refs arbitrary: st)
  case Nil
  show ?case by (simp add: upsert_refs_simps)
next
  case (Cons ref refs)
  have 1: "\<exists>rows. record_blob (upsert_blob now (fst ref) (snd ref) st) = record_blob st @ rows"
    by (simp add: upsert_blob_def insert_record_blob_def)
  have 2: "\<exists>rows. blob (upsert_blob now (fst ref) (snd ref) st) = blob st @ rows"
    by (simp add: upsert_blob_def insert_blob_def)
  from 1 2 Cons.IH [of "upsert_blob now (fst ref) (snd ref) st"]
  show ?case unfolding upsert_refs_simps by (metis append.assoc)
qed

lemma deref_fields:
  "record_blob (deleteDereferencedBlobs writes f st)
     = filter (\<lambda>row. snd row \<notin> set (replaced_uris writes)) (record_blob st)"
  "blob (deleteDereferencedBlobs writes f st)
     = filter (\<lambda>row. r_cid row \<notin>
         set (filter (\<lambda>c. c \<notin> set (new_blob_cids writes @
                 map fst (filter (\<lambda>row. snd row \<notin> set (replaced_uris writes)) (record_blob st))))
               (map fst (filter (\<lambda>row. snd row \<in> set (replaced_uris writes)) (record_blob st)))))
         (blob st)"
  "signing_key (deleteDereferencedBlobs writes f st) = signing_key st"
  "root (deleteDereferencedBlobs writes f st) = root st"
  "repo_block (deleteDereferencedBlobs writes f st) = repo_block st"
  "record_index (deleteDereferencedBlobs writes f st) = record_index st"
  by (simp_all add: deleteDereferencedBlobs_def Let_def)

lemma distinct_trackBlobs:
  assumes "distinct (record_blob st)" and "distinct (map r_cid (blob st))"
  shows "distinct (record_blob (trackBlobs now writes st))
       \<and> distinct (map r_cid (blob (trackBlobs now writes st)))"
  unfolding trackBlobs_def upsert_writes_refs
  by (rule distinct_upsert_refs) (simp_all add: deref_fields assms distinct_map_filter)

lemma set_record_blob_trackBlobs:
  "set (record_blob (trackBlobs now writes st))
     = {row \<in> set (record_blob st). snd row \<notin> set (replaced_uris writes)}
       \<union> (\<lambda>ref. (b_cid (snd ref), fst ref)) ` set (write_blob_refs writes)"
  by (simp add: trackBlobs_def upsert_writes_refs set_record_blob_upsert_refs deref_fields)

lemma cids_blob_trackBlobs:
  "(\<lambda>ref. b_cid (snd ref)) ` set (write_blob_refs writes) \<subseteq> r_cid ` set (blob (trackBlobs now writes st))"
  by (simp add: trackBlobs_def upsert_writes_refs cids_blob_upsert_refs)

lemma deref_after_trackBlobs:
  "blob (deleteDereferencedBlobs writes f (trackBlobs now writes st)) = blob (trackBlobs now writes st)"
proof -
  let ?t = "trackBlobs now writes st"
  let ?uris = "set (replaced_uris writes)"
  have "fst row \<in> set (new_blob_cids writes)"
    if "row \<in> set (record_blob ?t)" and "snd row \<in> ?uris" for row
    using that by (force simp: set_record_blob_trackBlobs new_blob_cids_refs)
  then have "filter (\<lambda>c. c \<notin> set (new_blob_cids writes @
                 map fst (filter (\<lambda>row. snd row \<notin> ?uris) (record_blob ?t))))
               (map fst (filter (\<lambda>row. snd row \<in> ?uris) (record_blob ?t))) = []"
    by (auto simp: filter_empty_conv)
  then show ?thesis by (simp add: deref_fields(2))
qed

lemma trackBlobs_twice_blob:
  "blob (trackBlobs now' writes (trackBlobs now writes st)) = blob (trackBlobs now writes st)"
proof -
  have "blob (trackBlobs now' writes (trackBlobs now writes st))
      = blob (deleteDereferencedBlobs writes True (trackBlobs now writes st))"
    unfolding trackBlobs_def [of now'] upsert_writes_refs
    by (rule blob_upsert_refs_present) (simp add: deref_after_trackBlobs cids_blob_trackBlobs)
  then show ?thesis by (simp add: deref_after_trackBlobs)
qed

lemma trackBlobs_twice_record_blob:
  "set (record_blob (trackBlobs now' writes (trackBlobs now writes st)))
     = set (record_blob (trackBlobs now writes st))"
  unfolding set_record_blob_trackBlobs [of now'] 
  by (auto simp: set_record_blob_trackBlobs)

text \<open>
  C5. \<^verbatim>\<open>trackBlobs\<close> is a total function: it cannot fail. On tables without duplicate keys
  it leaves tables without duplicate keys. Run again for the same writes, at any later
  time \<open>now'\<close>, it leaves the same association rows, still without duplicates, and the
  very same metadata rows: a row that is there is not overwritten, its \<open>createdAt\<close> stays.
  The upserts alone, run again, change nothing at all, and they only ever append rows to
  the rows that are there.
\<close>

theorem trackBlobs_idempotent:
  assumes "distinct (record_blob st)" and "distinct (map r_cid (blob st))"
  shows "distinct (record_blob (trackBlobs now writes st))
       \<and> distinct (map r_cid (blob (trackBlobs now writes st)))
       \<and> distinct (record_blob (trackBlobs now' writes (trackBlobs now writes st)))
       \<and> set (record_blob (trackBlobs now' writes (trackBlobs now writes st)))
           = set (record_blob (trackBlobs now writes st))
       \<and> blob (trackBlobs now' writes (trackBlobs now writes st)) = blob (trackBlobs now writes st)
       \<and> upsert_writes now' writes (upsert_writes now writes st) = upsert_writes now writes st
       \<and> (\<exists>rows. record_blob (upsert_writes now writes st) = record_blob st @ rows)
       \<and> (\<exists>rows. blob (upsert_writes now writes st) = blob st @ rows)"
proof -
  note d = distinct_trackBlobs [OF assms, of now writes]
  from d have "distinct (record_blob (trackBlobs now' writes (trackBlobs now writes st)))"
    using distinct_trackBlobs by blast
  with d show ?thesis
    using upsert_refs_grows [of now "write_blob_refs writes" st]
    by (simp add: trackBlobs_twice_blob trackBlobs_twice_record_blob upsert_writes_refs
        upsert_refs_twice)
qed



lemma blob_store_tracked:
  "record_blob (trackBlobs ''t1'' blob_writes blob_store)
     = [(''bafkblobA'', ''at://did:plc:alice/app.bsky.feed.post/k1''),
        (''bafkblobB'', ''at://did:plc:alice/app.bsky.feed.post/k1'')]
   \<and> blob (trackBlobs ''t1'' blob_writes blob_store)
     = [\<lparr>r_cid = ''bafkblobA'', r_mimeType = ''image/png'', r_size = 10, r_createdAt = ''t0''\<rparr>,
        \<lparr>r_cid = ''bafkblobB'', r_mimeType = ''image/gif'', r_size = 12, r_createdAt = ''t1''\<rparr>]"
  by (simp add: trackBlobs_def deleteDereferencedBlobs_def upsert_writes_def upsert_blob_def
      insert_record_blob_def insert_blob_def blob_store_def blob_writes_def empty_store_def Let_def)

text \<open>
  The blob \<open>bafkblobA\<close> keeps its metadata of time \<open>t0\<close> through two runs, although the
  write describes it differently.
\<close>

theorem trackBlobs_idempotent_witness:
  "distinct (record_blob blob_store) \<and> distinct (map r_cid (blob blob_store))
   \<and> set (record_blob (trackBlobs ''t2'' blob_writes (trackBlobs ''t1'' blob_writes blob_store)))
       = {(''bafkblobA'', ''at://did:plc:alice/app.bsky.feed.post/k1''),
          (''bafkblobB'', ''at://did:plc:alice/app.bsky.feed.post/k1'')}
   \<and> distinct (record_blob (trackBlobs ''t2'' blob_writes (trackBlobs ''t1'' blob_writes blob_store)))
   \<and> blob (trackBlobs ''t2'' blob_writes (trackBlobs ''t1'' blob_writes blob_store))
       = [\<lparr>r_cid = ''bafkblobA'', r_mimeType = ''image/png'', r_size = 10, r_createdAt = ''t0''\<rparr>,
          \<lparr>r_cid = ''bafkblobB'', r_mimeType = ''image/gif'', r_size = 12, r_createdAt = ''t1''\<rparr>]"
proof -
  have d: "distinct (record_blob blob_store)" "distinct (map r_cid (blob blob_store))"
    by (simp_all add: blob_store_def)
  from trackBlobs_idempotent [OF d, of "''t1''" blob_writes "''t2''"] d blob_store_tracked
  show ?thesis by simp
qed


lemma applyCommit_indexWrites_commute:
  "indexWrites writes r (applyCommit c g st) = applyCommit c g (indexWrites writes r st)"
  unfolding indexWrites_def
proof (induction writes arbitrary: st)
  case Nil
  show ?case by simp
next
  case (Cons w ws)
  have "index_write r w (applyCommit c g st) = applyCommit c g (index_write r w st)"
    by (cases w) (simp_all add: applyCommit_def)
  then show ?case by (simp add: Cons.IH)
qed

lemma upsert_refs_tables_cong:
  "record_blob st = record_blob st' \<Longrightarrow> blob st = blob st' \<Longrightarrow>
   record_blob (upsert_refs now refs st) = record_blob (upsert_refs now refs st')
   \<and> blob (upsert_refs now refs st) = blob (upsert_refs now refs st')"
proof (induction refs arbitrary: st st')
  case Nil
  then show ?case by (simp add: upsert_refs_simps)
next
  case (Cons ref refs)
  show ?case
    unfolding upsert_refs_simps
    by (rule Cons.IH) (simp_all add: upsert_blob_def Cons.prems)
qed

lemma trackBlobs_tables_cong:
  assumes "record_blob st = record_blob st'" and "blob st = blob st'"
  shows "record_blob (trackBlobs now writes st) = record_blob (trackBlobs now writes st')
       \<and> blob (trackBlobs now writes st) = blob (trackBlobs now writes st')"
  unfolding trackBlobs_def upsert_writes_refs
  by (rule upsert_refs_tables_cong) (simp_all add: deref_fields assms)

lemma trackBlobs_others:
  "signing_key (trackBlobs now writes st) = signing_key st"
  "root (trackBlobs now writes st) = root st"
  "repo_block (trackBlobs now writes st) = repo_block st"
  "record_index (trackBlobs now writes st) = record_index st"
  by (simp_all add: trackBlobs_def upsert_writes_refs upsert_refs_others deref_fields)

lemma indexWrites_others:
  "signing_key (indexWrites writes r st) = signing_key st
   \<and> root (indexWrites writes r st) = root st
   \<and> repo_block (indexWrites writes r st) = repo_block st
   \<and> record_blob (indexWrites writes r st) = record_blob st
   \<and> blob (indexWrites writes r st) = blob st"
  unfolding indexWrites_def
proof (induction writes arbitrary: st)
  case Nil
  show ?case by simp
next
  case (Cons w ws)
  show ?case by (cases w) (simp_all add: Cons.IH)
qed

lemma indexWrites_index_cong:
  "record_index st = record_index st' \<Longrightarrow>
   record_index (indexWrites writes r st) = record_index (indexWrites writes r st')"
  unfolding indexWrites_def
proof (induction writes arbitrary: st st')
  case Nil
  then show ?case by simp
next
  case (Cons w ws)
  have "record_index (index_write r w st) = record_index (index_write r w st')"
    using Cons.prems by (cases w) simp_all
  from Cons.IH [OF this] show ?case by simp
qed

lemma trackBlobs_applyCommit_commute:
  "trackBlobs now writes (applyCommit c g st) = applyCommit c g (trackBlobs now writes st)"
proof -
  have "record_blob (applyCommit c g st) = record_blob st" "blob (applyCommit c g st) = blob st"
    by (simp_all add: applyCommit_def)
  from trackBlobs_tables_cong [OF this, of now writes]
  show ?thesis
    by (intro actor_store.equality) (simp_all add: trackBlobs_others applyCommit_def)
qed

lemma trackBlobs_indexWrites_commute:
  "trackBlobs now writes (indexWrites ws r st) = indexWrites ws r (trackBlobs now writes st)"
proof -
  have "record_blob (indexWrites ws r st) = record_blob st" "blob (indexWrites ws r st) = blob st"
    by (simp_all add: indexWrites_others)
  note t = trackBlobs_tables_cong [OF this, of now writes]
  have "record_index (trackBlobs now writes st) = record_index st"
    by (rule trackBlobs_others)
  note i = indexWrites_index_cong [OF this, of ws r]
  from t i show ?thesis
    by (intro actor_store.equality) (simp_all add: trackBlobs_others indexWrites_others)
qed

text \<open>
  The three effects of the transaction of \<^verbatim>\<open>processCommit\<close> are on different tables and
  commute: in whatever order they are applied, the repository is the same.
\<close>

lemma commit_effects_commute:
  "trackBlobs now writes (indexWrites writes r (applyCommit c g st))
     = trackBlobs now writes (applyCommit c g (indexWrites writes r st))"
  "trackBlobs now writes (indexWrites writes r (applyCommit c g st))
     = indexWrites writes r (trackBlobs now writes (applyCommit c g st))"
  "trackBlobs now writes (indexWrites writes r (applyCommit c g st))
     = indexWrites writes r (applyCommit c g (trackBlobs now writes st))"
  "trackBlobs now writes (indexWrites writes r (applyCommit c g st))
     = applyCommit c g (trackBlobs now writes (indexWrites writes r st))"
  "trackBlobs now writes (indexWrites writes r (applyCommit c g st))
     = applyCommit c g (indexWrites writes r (trackBlobs now writes st))"
proof -
  show "trackBlobs now writes (indexWrites writes r (applyCommit c g st))
     = trackBlobs now writes (applyCommit c g (indexWrites writes r st))"
    by (simp only: applyCommit_indexWrites_commute)
  show "trackBlobs now writes (indexWrites writes r (applyCommit c g st))
     = indexWrites writes r (trackBlobs now writes (applyCommit c g st))"
    by (simp only: trackBlobs_indexWrites_commute)
  show "trackBlobs now writes (indexWrites writes r (applyCommit c g st))
     = indexWrites writes r (applyCommit c g (trackBlobs now writes st))"
    by (simp only: trackBlobs_indexWrites_commute trackBlobs_applyCommit_commute)
  show "trackBlobs now writes (indexWrites writes r (applyCommit c g st))
     = applyCommit c g (trackBlobs now writes (indexWrites writes r st))"
    by (simp only: applyCommit_indexWrites_commute trackBlobs_applyCommit_commute)
  show "trackBlobs now writes (indexWrites writes r (applyCommit c g st))
     = applyCommit c g (indexWrites writes r (trackBlobs now writes st))"
    by (simp only: trackBlobs_indexWrites_commute trackBlobs_applyCommit_commute
        applyCommit_indexWrites_commute)
qed


section \<open>Properties of the order of the store calls\<close>

lemma occurs_before_append:
  "a \<in> set xs \<Longrightarrow> b \<in> set ys \<Longrightarrow> occurs_before a b (xs @ ys)"
  by (induction xs) auto

lemma occurs_before_appendI1: "occurs_before a b xs \<Longrightarrow> occurs_before a b (xs @ ys)"
  by (induction xs) auto

lemma occurs_before_appendI2: "occurs_before a b ys \<Longrightarrow> occurs_before a b (xs @ ys)"
  by (induction xs) auto

lemma set_run_schedule:
  "set (run_schedule sched ts) = set (concat (map concat ts))"
proof (induction sched arbitrary: ts)
  case Nil
  show ?case by simp
next
  case (Cons i sched)
  show ?case
  proof (cases "i < length ts")
    case False
    then show ?thesis by (simp add: Cons.IH)
  next
    case True
    show ?thesis
    proof (cases "ts ! i")
      case Nil
      with True show ?thesis by (simp add: Cons.IH)
    next
      case (Cons seg rest)
      have ts: "ts = take i ts @ (seg # rest) # drop (Suc i) ts"
        using True Cons by (metis id_take_nth_drop)
      have upd: "ts[i := rest] = take i ts @ rest # drop (Suc i) ts"
        using True by (simp add: upd_conv_take_nth_drop)
      have "set (run_schedule (i # sched) ts) = set seg \<union> set (concat (map concat (ts[i := rest])))"
        using True Cons by (simp add: Cons.IH)
      also have "\<dots> = set (concat (map concat (take i ts @ (seg # rest) # drop (Suc i) ts)))"
        unfolding upd by auto
      finally show ?thesis using ts by simp
    qed
  qed
qed

lemma filter_none:
  assumes "\<forall>j<length ts. \<forall>seg\<in>set (ts ! j). \<forall>e\<in>set seg. \<not> P e"
  shows "filter P (concat (map concat ts)) = []"
proof -
  have "\<not> P e" if "t \<in> set ts" and "seg \<in> set t" and "e \<in> set seg" for t seg e
    using that assms by (metis in_set_conv_nth)
  then show ?thesis by (auto simp: filter_empty_conv)
qed

lemma filter_concat_threads:
  assumes "k < length ts"
    and "\<forall>j<length ts. \<forall>seg\<in>set (ts ! j). \<forall>e\<in>set seg. P e = (j = k)"
  shows "filter P (concat (map concat ts)) = concat (ts ! k)"
  using assms
proof (induction ts arbitrary: k)
  case Nil
  then show ?case by simp
next
  case (Cons t ts)
  have hd: "\<forall>seg\<in>set t. \<forall>e\<in>set seg. P e = (0 = k)"
    using Cons.prems(2) by (metis length_greater_0_conv list.distinct(1) nth_Cons_0)
  have tl: "\<forall>j<length ts. \<forall>seg\<in>set (ts ! j). \<forall>e\<in>set seg. P e = (Suc j = k)"
    using Cons.prems(2) by (metis Suc_less_eq length_Cons nth_Cons_Suc)
  show ?case
  proof (cases k)
    case 0
    with hd have "filter P (concat t) = concat t" by (auto simp: filter_id_conv)
    moreover from tl 0 have "filter P (concat (map concat ts)) = []"
      by (intro filter_none) simp
    ultimately show ?thesis using 0 by simp
  next
    case (Suc k')
    with hd have "filter P (concat t) = []" by (auto simp: filter_empty_conv)
    moreover have "filter P (concat (map concat ts)) = concat (ts ! k')"
      using Cons.prems(1) tl Suc by (intro Cons.IH) auto
    ultimately show ?thesis using Suc by simp
  qed
qed

lemma filter_run_schedule:
  assumes "k < length ts"
    and "\<forall>j<length ts. \<forall>seg\<in>set (ts ! j). \<forall>e\<in>set seg. P e = (j = k)"
  shows "filter P (run_schedule sched ts) = concat (ts ! k)"
  using assms
proof (induction sched arbitrary: ts)
  case Nil
  then show ?case by (simp add: filter_concat_threads)
next
  case (Cons i sched)
  show ?case
  proof (cases "i < length ts")
    case False
    with Cons show ?thesis by simp
  next
    case True
    show ?thesis
    proof (cases "ts ! i")
      case Nil
      with True Cons show ?thesis by simp
    next
      case (Cons seg rest)
      have seg: "\<forall>e\<in>set seg. P e = (i = k)"
        using Cons.prems(2) True Cons by (metis list.set_intros(1))
      have upd: "\<forall>j<length (ts[i := rest]). \<forall>s\<in>set ((ts[i := rest]) ! j). \<forall>e\<in>set s. P e = (j = k)"
      proof (intro allI impI ballI)
        fix j s e
        assume j: "j < length (ts[i := rest])" and s: "s \<in> set ((ts[i := rest]) ! j)" and e: "e \<in> set s"
        have "s \<in> set (ts ! j)"
        proof (cases "j = i")
          case True
          with s j Cons show ?thesis by simp
        next
          case False
          with s show ?thesis by simp
        qed
        with Cons.prems(2) j e show "P e = (j = k)" by simp
      qed
      have ih: "filter P (run_schedule sched (ts[i := rest])) = concat ((ts[i := rest]) ! k)"
        using Cons.prems(1) upd by (intro Cons.IH) simp_all
      show ?thesis
      proof (cases "i = k")
        case True
        with seg have "filter P seg = seg" by (auto simp: filter_id_conv)
        with True Cons ih \<open>i < length ts\<close> show ?thesis by simp
      next
        case False
        with seg have "filter P seg = []" by (auto simp: filter_empty_conv)
        with False Cons ih \<open>i < length ts\<close> show ?thesis by simp
      qed
    qed
  qed
qed

lemma occurs_before_in_set: "occurs_before a b xs \<Longrightarrow> a \<in> set xs \<and> b \<in> set xs"
  by (induction xs) auto

lemma not_occurs_before_append:
  "a \<notin> set xs \<Longrightarrow> b \<notin> set ys \<Longrightarrow> \<not> occurs_before a b (xs @ ys)"
proof (induction xs)
  case Nil
  then show ?case using occurs_before_in_set [of a b ys] by auto
next
  case (Cons x xs)
  then show ?case by auto
qed

lemma concat_async_call: "concat (async_call n rej c) = [Called c, settled rej c]"
  by (simp add: async_call_def)

lemma concat_async_calls:
  "concat (concat (map (\<lambda>c. async_call (n c) rej c) cs))
     = concat (map (\<lambda>c. [Called c, settled rej c]) cs)"
  by (induction cs) (simp_all add: concat_async_call)

lemma first_segment_async_call:
  "first_segment (async_call n rej c) = (if n = 0 then [Called c, settled rej c] else [Called c])"
  by (simp add: async_call_def first_segment_def)

lemma thread_split: "t \<noteq> [] \<Longrightarrow> concat t = first_segment t @ concat (tl t)"
  by (cases t) (simp_all add: first_segment_def)

lemma trackBlobs_thread_split:
  "trackBlobs_thread susp rej writes =
     async_call (susp CallDeleteDereferenced) rej CallDeleteDereferenced
     @ concat (map (\<lambda>c. async_call (susp c) rej c)
                 (if rej CallDeleteDereferenced then [] else awaited rej (track_calls writes)))"
  by (simp add: trackBlobs_thread_def)

lemma trackBlobs_thread_nonempty: "trackBlobs_thread susp rej writes \<noteq> []"
  by (simp add: trackBlobs_thread_split async_call_def)

lemma first_segment_trackBlobs_thread:
  "first_segment (trackBlobs_thread susp rej writes)
     = first_segment (async_call (susp CallDeleteDereferenced) rej CallDeleteDereferenced)"
  by (simp add: trackBlobs_thread_split async_call_def first_segment_def)

lemma call_of_settled: "call_of (settled rej c) = c"
  by (simp add: settled_def)

lemma call_of_async_call: "seg \<in> set (async_call n rej c) \<Longrightarrow> e \<in> set seg \<Longrightarrow> call_of e = c"
  by (auto simp: async_call_def call_of_settled split: if_splits)

lemma set_awaited: "set (awaited rej cs) \<subseteq> set cs"
  by (induction cs) auto

lemma track_calls_inserts:
  "c \<in> set (track_calls writes) \<Longrightarrow>
     c \<noteq> CallApplyCommit \<and> c \<noteq> CallIndexWrites \<and> c \<noteq> CallDeleteDereferenced"
  by (induction writes rule: track_calls.induct) auto

lemma call_of_trackBlobs_thread:
  assumes "seg \<in> set (trackBlobs_thread susp rej writes)" and "e \<in> set seg"
  shows "reconciles e"
proof -
  from assms obtain c where c: "c \<in> set (awaited rej (CallDeleteDereferenced # track_calls writes))"
    and "seg \<in> set (async_call (susp c) rej c)"
    by (auto simp: trackBlobs_thread_def)
  with assms(2) have "call_of e = c" by (simp add: call_of_async_call)
  moreover from c set_awaited have "c \<in> set (CallDeleteDereferenced # track_calls writes)"
    by blast
  ultimately show ?thesis
    using track_calls_inserts [of c writes] by (auto simp: reconciles_def)
qed

lemma Called_deref_not_later:
  "Called CallDeleteDereferenced \<notin> set (concat (tl (trackBlobs_thread susp rej writes)))"
proof
  assume "Called CallDeleteDereferenced \<in> set (concat (tl (trackBlobs_thread susp rej writes)))"
  then consider
      "Called CallDeleteDereferenced
         \<in> set (concat (tl (async_call (susp CallDeleteDereferenced) rej CallDeleteDereferenced)))"
    | c where "c \<in> set (awaited rej (track_calls writes))"
        "Called CallDeleteDereferenced \<in> set (concat (async_call (susp c) rej c))"
    by (auto simp: trackBlobs_thread_split async_call_def split: if_splits)
  then show False
  proof cases
    case 1
    then show ?thesis by (auto simp: async_call_def settled_def split: if_splits)
  next
    case 2
    from 2(2) have "c = CallDeleteDereferenced"
      by (auto simp: concat_async_call settled_def split: if_splits)
    with 2(1) set_awaited [of rej "track_calls writes"] track_calls_inserts [of c writes]
    show ?thesis by auto
  qed
qed

lemma in_tl: "seg \<in> set (tl t) \<Longrightarrow> seg \<in> set t"
  by (cases t) auto

lemma three_threads:
  assumes "\<And>seg e. seg \<in> set a \<Longrightarrow> e \<in> set seg \<Longrightarrow> P e = (0 = k)"
    and "\<And>seg e. seg \<in> set b \<Longrightarrow> e \<in> set seg \<Longrightarrow> P e = (1 = k)"
    and "\<And>seg e. seg \<in> set c \<Longrightarrow> e \<in> set seg \<Longrightarrow> P e = (2 = k)"
  shows "\<forall>j<length [a, b, c]. \<forall>seg\<in>set ([a, b, c] ! j). \<forall>e\<in>set seg. P e = (j = (k::nat))"
proof (intro allI impI ballI)
  fix j seg e
  assume j: "j < length [a, b, c]" and seg: "seg \<in> set ([a, b, c] ! j)" and e: "e \<in> set seg"
  from j consider "j = 0" | "j = 1" | "j = 2" by fastforce
  then show "P e = (j = k)"
  proof cases
    case 1
    with seg e assms(1) show ?thesis by simp
  next
    case 2
    with seg e assms(2) show ?thesis by simp
  next
    case 3
    with seg e assms(3) show ?thesis by simp
  qed
qed

lemma commit_calls_unfold:
  "commit_calls susp rej sched writes =
     (first_segment (async_call (susp CallApplyCommit) rej CallApplyCommit)
      @ first_segment (async_call (susp CallIndexWrites) rej CallIndexWrites)
      @ first_segment (async_call (susp CallDeleteDereferenced) rej CallDeleteDereferenced))
     @ run_schedule sched
         [tl (async_call (susp CallApplyCommit) rej CallApplyCommit),
          tl (async_call (susp CallIndexWrites) rej CallIndexWrites),
          tl (trackBlobs_thread susp rej writes)]"
  by (simp add: commit_calls_def call_all_def first_segment_trackBlobs_thread)

lemma commit_calls_project:
  "filter reconciles (commit_calls susp rej sched writes)
     = concat (map (\<lambda>c. [Called c, settled rej c])
                 (awaited rej (CallDeleteDereferenced # track_calls writes)))"
  "filter (\<lambda>e. call_of e = CallApplyCommit) (commit_calls susp rej sched writes)
     = [Called CallApplyCommit, settled rej CallApplyCommit]"
  "filter (\<lambda>e. call_of e = CallIndexWrites) (commit_calls susp rej sched writes)
     = [Called CallIndexWrites, settled rej CallIndexWrites]"
proof -
  let ?a = "async_call (susp CallApplyCommit) rej CallApplyCommit"
  let ?i = "async_call (susp CallIndexWrites) rej CallIndexWrites"
  let ?t = "trackBlobs_thread susp rej writes"
  let ?ts = "[tl ?a, tl ?i, tl ?t]"
  have ea: "call_of e = CallApplyCommit" if "seg \<in> set ?a" "e \<in> set seg" for seg e
    using that by (rule call_of_async_call)
  have ei: "call_of e = CallIndexWrites" if "seg \<in> set ?i" "e \<in> set seg" for seg e
    using that by (rule call_of_async_call)
  have et: "reconciles e" if "seg \<in> set ?t" "e \<in> set seg" for seg e
    using that by (rule call_of_trackBlobs_thread)
  have ra: "\<forall>j<length ?ts. \<forall>seg\<in>set (?ts ! j). \<forall>e\<in>set seg. reconciles e = (j = 2)"
    using ea ei et by (intro three_threads) (auto simp: reconciles_def dest!: in_tl)
  have ca: "\<forall>j<length ?ts. \<forall>seg\<in>set (?ts ! j). \<forall>e\<in>set seg. (call_of e = CallApplyCommit) = (j = 0)"
    using ea ei et by (intro three_threads) (auto simp: reconciles_def dest!: in_tl)
  have ci: "\<forall>j<length ?ts. \<forall>seg\<in>set (?ts ! j). \<forall>e\<in>set seg. (call_of e = CallIndexWrites) = (j = 1)"
    using ea ei et by (intro three_threads) (auto simp: reconciles_def dest!: in_tl)
  have fa: "filter reconciles (first_segment ?a) = []" "filter reconciles (first_segment ?i) = []"
    "filter (\<lambda>e. call_of e = CallApplyCommit) (first_segment ?a) = first_segment ?a"
    "filter (\<lambda>e. call_of e = CallApplyCommit) (first_segment ?i) = []"
    "filter (\<lambda>e. call_of e = CallIndexWrites) (first_segment ?a) = []"
    "filter (\<lambda>e. call_of e = CallIndexWrites) (first_segment ?i) = first_segment ?i"
    by (simp_all add: first_segment_async_call reconciles_def call_of_settled)
  have ft: "filter reconciles (first_segment ?t) = first_segment ?t"
    "filter (\<lambda>e. call_of e = CallApplyCommit) (first_segment ?t) = []"
    "filter (\<lambda>e. call_of e = CallIndexWrites) (first_segment ?t) = []"
    by (simp_all add: first_segment_trackBlobs_thread first_segment_async_call reconciles_def
        call_of_settled)
  have u: "commit_calls susp rej sched writes
      = (first_segment ?a @ first_segment ?i @ first_segment ?t) @ run_schedule sched ?ts"
    by (simp add: commit_calls_def call_all_def)
  have "filter reconciles (commit_calls susp rej sched writes) = concat ?t"
    unfolding u using filter_run_schedule [of 2 ?ts reconciles sched, OF _ ra]
    by (simp add: fa ft thread_split [OF trackBlobs_thread_nonempty])
  then show "filter reconciles (commit_calls susp rej sched writes)
     = concat (map (\<lambda>c. [Called c, settled rej c])
                 (awaited rej (CallDeleteDereferenced # track_calls writes)))"
    unfolding trackBlobs_thread_def concat_async_calls .
  have "filter (\<lambda>e. call_of e = CallApplyCommit) (commit_calls susp rej sched writes) = concat ?a"
    unfolding u using filter_run_schedule [of 0 ?ts "\<lambda>e. call_of e = CallApplyCommit" sched, OF _ ca]
    by (simp add: fa ft) (simp add: async_call_def first_segment_def)
  then show "filter (\<lambda>e. call_of e = CallApplyCommit) (commit_calls susp rej sched writes)
     = [Called CallApplyCommit, settled rej CallApplyCommit]"
    by (simp add: concat_async_call)
  have "filter (\<lambda>e. call_of e = CallIndexWrites) (commit_calls susp rej sched writes) = concat ?i"
    unfolding u using filter_run_schedule [of 1 ?ts "\<lambda>e. call_of e = CallIndexWrites" sched, OF _ ci]
    by (simp add: fa ft) (simp add: async_call_def first_segment_def)
  then show "filter (\<lambda>e. call_of e = CallIndexWrites) (commit_calls susp rej sched writes)
     = [Called CallIndexWrites, settled rej CallIndexWrites]"
    by (simp add: concat_async_call)
qed

lemma commit_calls_started_in_order:
  "occurs_before (Called CallApplyCommit) (Called CallIndexWrites) (commit_calls susp rej sched writes)"
  "occurs_before (Called CallApplyCommit) (Called CallDeleteDereferenced) (commit_calls susp rej sched writes)"
  "occurs_before (Called CallIndexWrites) (Called CallDeleteDereferenced) (commit_calls susp rej sched writes)"
  unfolding commit_calls_unfold
  by (rule occurs_before_appendI1, simp add: first_segment_async_call)+

lemma commit_calls_overlap:
  "0 < susp CallApplyCommit \<Longrightarrow>
     occurs_before (Called CallDeleteDereferenced) (settled rej CallApplyCommit)
       (commit_calls susp rej sched writes)"
  "0 < susp CallIndexWrites \<Longrightarrow>
     occurs_before (Called CallDeleteDereferenced) (settled rej CallIndexWrites)
       (commit_calls susp rej sched writes)"
  unfolding commit_calls_unfold
  by (rule occurs_before_append, simp add: first_segment_async_call,
      simp add: set_run_schedule async_call_def)+

lemma commit_calls_not_after:
  "0 < susp CallApplyCommit \<Longrightarrow>
     \<not> occurs_before (settled rej CallApplyCommit) (Called CallDeleteDereferenced)
         (commit_calls susp rej sched writes)"
  "0 < susp CallIndexWrites \<Longrightarrow>
     \<not> occurs_before (settled rej CallIndexWrites) (Called CallDeleteDereferenced)
         (commit_calls susp rej sched writes)"
proof -
  have later: "Called CallDeleteDereferenced
      \<notin> set (run_schedule sched
          [tl (async_call (susp CallApplyCommit) rej CallApplyCommit),
           tl (async_call (susp CallIndexWrites) rej CallIndexWrites),
           tl (trackBlobs_thread susp rej writes)])"
    using Called_deref_not_later [of susp rej writes]
    by (auto simp: set_run_schedule async_call_def settled_def split: if_splits)
  show "0 < susp CallApplyCommit \<Longrightarrow>
     \<not> occurs_before (settled rej CallApplyCommit) (Called CallDeleteDereferenced)
         (commit_calls susp rej sched writes)"
    unfolding commit_calls_unfold
    by (rule not_occurs_before_append [OF _ later])
       (auto simp: first_segment_async_call settled_def)
  show "0 < susp CallIndexWrites \<Longrightarrow>
     \<not> occurs_before (settled rej CallIndexWrites) (Called CallDeleteDereferenced)
         (commit_calls susp rej sched writes)"
    unfolding commit_calls_unfold
    by (rule not_occurs_before_append [OF _ later])
       (auto simp: first_segment_async_call settled_def)
qed

text \<open>
  C4, as amended. Whatever the schedule, however often the operations suspend and
  whichever of them reject: \<^verbatim>\<open>applyCommit\<close>, \<^verbatim>\<open>indexWrites\<close> and the dereferencing of
  \<^verbatim>\<open>trackBlobs\<close> are called in this order; \<^verbatim>\<open>applyCommit\<close> and \<^verbatim>\<open>indexWrites\<close> are each
  called once and settle once; the calls of blob reference reconciliation are made one
  after the other, each after the one before it has settled: the dereferencing first, then
  the two inserts for each blob of each create or update, in the order of the writes, up
  to the first call that rejects. Reconciliation does not wait for the other two: when
  \<^verbatim>\<open>applyCommit\<close> (or \<^verbatim>\<open>indexWrites\<close>) suspends at all, the dereferencing is called before
  it settles, never after.
\<close>

theorem reconciliation_overlaps_commit:
  "filter reconciles (commit_calls susp rej sched writes)
     = concat (map (\<lambda>c. [Called c, settled rej c])
                 (awaited rej (CallDeleteDereferenced # track_calls writes)))
   \<and> filter (\<lambda>e. call_of e = CallApplyCommit) (commit_calls susp rej sched writes)
       = [Called CallApplyCommit, settled rej CallApplyCommit]
   \<and> filter (\<lambda>e. call_of e = CallIndexWrites) (commit_calls susp rej sched writes)
       = [Called CallIndexWrites, settled rej CallIndexWrites]
   \<and> occurs_before (Called CallApplyCommit) (Called CallIndexWrites)
       (commit_calls susp rej sched writes)
   \<and> occurs_before (Called CallApplyCommit) (Called CallDeleteDereferenced)
       (commit_calls susp rej sched writes)
   \<and> occurs_before (Called CallIndexWrites) (Called CallDeleteDereferenced)
       (commit_calls susp rej sched writes)
   \<and> (0 < susp CallApplyCommit \<longrightarrow>
        occurs_before (Called CallDeleteDereferenced) (settled rej CallApplyCommit)
          (commit_calls susp rej sched writes)
        \<and> \<not> occurs_before (settled rej CallApplyCommit) (Called CallDeleteDereferenced)
            (commit_calls susp rej sched writes))
   \<and> (0 < susp CallIndexWrites \<longrightarrow>
        occurs_before (Called CallDeleteDereferenced) (settled rej CallIndexWrites)
          (commit_calls susp rej sched writes)
        \<and> \<not> occurs_before (settled rej CallIndexWrites) (Called CallDeleteDereferenced)
            (commit_calls susp rej sched writes))"
  using commit_calls_project [of susp rej sched writes]
    commit_calls_started_in_order [of susp rej sched writes]
    commit_calls_overlap [of susp rej sched writes]
    commit_calls_not_after [of susp rej sched writes]
  by blast

text \<open>
  C4 as stated fails. With every operation suspending once and none rejecting, the
  dereferencing is called before \<^verbatim>\<open>applyCommit\<close> and \<^verbatim>\<open>indexWrites\<close> have settled, not
  after.
\<close>

theorem reconciliation_after_commit_counterexample:
  "occurs_before (Called CallDeleteDereferenced) (Fulfilled CallApplyCommit)
     (commit_calls (\<lambda>c. 1) (\<lambda>c. False) [] blob_writes)
   \<and> \<not> occurs_before (Fulfilled CallApplyCommit) (Called CallDeleteDereferenced)
         (commit_calls (\<lambda>c. 1) (\<lambda>c. False) [] blob_writes)
   \<and> occurs_before (Called CallDeleteDereferenced) (Fulfilled CallIndexWrites)
     (commit_calls (\<lambda>c. 1) (\<lambda>c. False) [] blob_writes)
   \<and> \<not> occurs_before (Fulfilled CallIndexWrites) (Called CallDeleteDereferenced)
         (commit_calls (\<lambda>c. 1) (\<lambda>c. False) [] blob_writes)"
  by code_simp

text \<open>
  The sample writes with two blobs, every operation suspending once: first with no
  rejection, then with the insert of the first metadata row rejecting.
\<close>

theorem reconciliation_overlaps_commit_witness:
  "occurs_before (Called CallDeleteDereferenced) (Fulfilled CallApplyCommit)
     (commit_calls (\<lambda>c. 1) (\<lambda>c. False) [2, 0, 1] blob_writes)
   \<and> occurs_before (Called CallDeleteDereferenced) (Fulfilled CallIndexWrites)
     (commit_calls (\<lambda>c. 1) (\<lambda>c. False) [2, 0, 1] blob_writes)
   \<and> filter reconciles (commit_calls (\<lambda>c. 1) (\<lambda>c. False) [2, 0, 1] blob_writes)
     = [Called CallDeleteDereferenced, Fulfilled CallDeleteDereferenced,
        Called (CallInsertRecordBlob ''bafkblobA'' ''at://did:plc:alice/app.bsky.feed.post/k1''),
        Fulfilled (CallInsertRecordBlob ''bafkblobA'' ''at://did:plc:alice/app.bsky.feed.post/k1''),
        Called (CallInsertBlob ''bafkblobA''), Fulfilled (CallInsertBlob ''bafkblobA''),
        Called (CallInsertRecordBlob ''bafkblobB'' ''at://did:plc:alice/app.bsky.feed.post/k1''),
        Fulfilled (CallInsertRecordBlob ''bafkblobB'' ''at://did:plc:alice/app.bsky.feed.post/k1''),
        Called (CallInsertBlob ''bafkblobB''), Fulfilled (CallInsertBlob ''bafkblobB'')]
   \<and> filter reconciles
       (commit_calls (\<lambda>c. 1) (\<lambda>c. c = CallInsertBlob ''bafkblobA'') [2, 0, 1] blob_writes)
     = [Called CallDeleteDereferenced, Fulfilled CallDeleteDereferenced,
        Called (CallInsertRecordBlob ''bafkblobA'' ''at://did:plc:alice/app.bsky.feed.post/k1''),
        Fulfilled (CallInsertRecordBlob ''bafkblobA'' ''at://did:plc:alice/app.bsky.feed.post/k1''),
        Called (CallInsertBlob ''bafkblobA''), Rejected (CallInsertBlob ''bafkblobA'')]"
proof -
  have s: "(0::nat) < (\<lambda>c. 1) CallApplyCommit" "(0::nat) < (\<lambda>c. 1) CallIndexWrites"
    by simp_all
  have t: "track_calls blob_writes
     = [CallInsertRecordBlob ''bafkblobA'' ''at://did:plc:alice/app.bsky.feed.post/k1'',
        CallInsertBlob ''bafkblobA'',
        CallInsertRecordBlob ''bafkblobB'' ''at://did:plc:alice/app.bsky.feed.post/k1'',
        CallInsertBlob ''bafkblobB'']"
    by (simp add: blob_writes_def)
  from reconciliation_overlaps_commit [of "\<lambda>c. 1" "\<lambda>c. False" "[2, 0, 1]" blob_writes]
       reconciliation_overlaps_commit
         [of "\<lambda>c. 1" "\<lambda>c. c = CallInsertBlob ''bafkblobA''" "[2, 0, 1]" blob_writes] s
  show ?thesis by (simp add: t settled_def)
qed

end
